theory Spec2Isabelle
  imports Complex_Main
begin


section \<open>Distributed sampling driver (generate.py)\<close>

text \<open>
  A shallow embedding of \<^verbatim>\<open>generate.py\<close>: the per-rank seed, the batch planning
  arithmetic, the sampling loop's index assignment, the skip check and the archive
  builder.  Python integers are \<^typ>\<open>int\<close>; every raise and failed assertion is a
  value of type \<open>error\<close>.
\<close>

subsection \<open>Errors\<close>

datatype error =
    AssertionError string
  | NotImplementedError
  | ZeroDivisionError
  | OverflowError
  | ValueError
  | IndexError
  | FileNotFoundError string
  | IsADirectoryError string
  | FileExistsError string
  | UnidentifiedImageError string
  | ExternalError string

subsection \<open>Python numerics: \<^verbatim>\<open>math.ceil(a / b)\<close> on integers\<close>

text \<open>
  Line 165 computes \<^verbatim>\<open>math.ceil(args.num_fid_samples / global_batch_size)\<close>.  On two
  Python integers \<^verbatim>\<open>/\<close> is true division: the result is the IEEE-754 binary64 number
  nearest to the exact quotient (ties to even), \<^verbatim>\<open>OverflowError\<close> when that number
  would not be finite, \<^verbatim>\<open>ZeroDivisionError\<close> when the divisor is zero.  A finite
  double is represented here by a pair \<open>(m, e)\<close> standing for \<open>m * 2 ^ e\<close>.
\<close>

function bit_length :: "int \<Rightarrow> int" where
  \<comment> \<open>\<^verbatim>\<open>int.bit_length()\<close> of a non-negative integer\<close>
  "bit_length n = (if n \<le> 0 then 0 else 1 + bit_length (n div 2))"
  by pat_completeness auto
termination
  by (relation "measure nat") auto

declare bit_length.simps [simp del]

definition round_half_even :: "int \<Rightarrow> int \<Rightarrow> int" where
  \<comment> \<open>the integer nearest to \<open>p / q\<close> for \<open>0 \<le> p\<close> and \<open>0 < q\<close>, ties to the even one\<close>
  "round_half_even p q =
     (let m = p div q; r = p mod q
      in if q < 2 * r \<or> (2 * r = q \<and> odd m) then m + 1 else m)"

definition scale_num :: "int \<Rightarrow> int \<Rightarrow> int" where
  "scale_num a s = (if 0 \<le> s then a * 2 ^ nat s else a)"

definition scale_den :: "int \<Rightarrow> int \<Rightarrow> int" where
  "scale_den b s = (if 0 \<le> s then b else b * 2 ^ nat (- s))"

definition double_shift :: "int \<Rightarrow> int \<Rightarrow> int" where
  \<comment> \<open>the \<open>s\<close> with \<open>2 ^ 52 \<le> a * 2 ^ s / b < 2 ^ 53\<close>, capped at the subnormal exponent\<close>
  "double_shift a b =
     (let s0 = 53 + bit_length b - bit_length a;
          s = (if scale_num a s0 < 2 ^ 53 * scale_den b s0 then s0 else s0 - 1)
      in min s 1074)"

definition double_of_ratio :: "int \<Rightarrow> int \<Rightarrow> int \<times> int" where
  \<comment> \<open>\<open>a / b\<close> for positive \<open>a\<close> and \<open>b\<close>, rounded to 53 significant bits\<close>
  "double_of_ratio a b =
     (let s = double_shift a b
      in (round_half_even (scale_num a s) (scale_den b s), - s))"

definition true_div :: "int \<Rightarrow> int \<Rightarrow> error + int \<times> int" where
  "true_div a b =
     (if b = 0 then Inl ZeroDivisionError
      else if a = 0 then Inr (0, 0)
      else
        (case double_of_ratio \<bar>a\<bar> \<bar>b\<bar> of (m, e) \<Rightarrow>
           if 0 \<le> e \<and> 2 ^ 1024 \<le> m * 2 ^ nat e then Inl OverflowError
           else Inr (if (a < 0) = (b < 0) then m else - m, e)))"

definition math_ceil :: "int \<times> int \<Rightarrow> int" where
  "math_ceil d =
     (case d of (m, e) \<Rightarrow>
        if 0 \<le> e then m * 2 ^ nat e else - ((- m) div 2 ^ nat (- e)))"

subsection \<open>Per-rank seed (line 64)\<close>

definition derive_seed :: "int \<Rightarrow> int \<Rightarrow> int \<Rightarrow> int" where
  \<comment> \<open>\<^verbatim>\<open>(args.global_seed + rank) * dist.get_world_size()//2\<close>\<close>
  "derive_seed global_seed rank world_size = ((global_seed + rank) * world_size) div 2"

subsection \<open>Batch planning (lines 162 to 173)\<close>

record sample_plan =
  total_samples :: int
  samples_needed_this_gpu :: int
  iterations :: int

definition py_assert :: "bool \<Rightarrow> string \<Rightarrow> error + unit" where
  "py_assert c msg = (if c then Inr () else Inl (AssertionError msg))"

definition compute_total_samples :: "int \<Rightarrow> int \<Rightarrow> int \<Rightarrow> error + int" where
  \<comment> \<open>lines 162 to 165\<close>
  "compute_total_samples num_fid_samples n world_size =
     (let global_batch_size = n * world_size
      in case true_div num_fid_samples global_batch_size of
           Inl err \<Rightarrow> Inl err
         | Inr q \<Rightarrow> Inr (math_ceil q * global_batch_size))"

definition split_samples :: "int \<Rightarrow> int \<Rightarrow> int \<Rightarrow> error + sample_plan" where
  \<comment> \<open>lines 170 to 173\<close>
  "split_samples tot n world_size =
     (if world_size = 0 then Inl ZeroDivisionError
      else case py_assert (tot mod world_size = 0)
                  ''total_samples must be divisible by world_size'' of
        Inl err \<Rightarrow> Inl err
      | Inr _ \<Rightarrow>
         (let needed = tot div world_size
          in if n = 0 then Inl ZeroDivisionError
             else case py_assert (needed mod n = 0)
                 ''samples_needed_this_gpu must be divisible by the per-GPU batch size'' of
               Inl err \<Rightarrow> Inl err
             | Inr _ \<Rightarrow>
                 Inr \<lparr>total_samples = tot, samples_needed_this_gpu = needed,
                      iterations = needed div n\<rparr>))"

definition plan :: "int \<Rightarrow> int \<Rightarrow> int \<Rightarrow> error + sample_plan" where
  "plan num_fid_samples n world_size =
     (case compute_total_samples num_fid_samples n world_size of
        Inl err \<Rightarrow> Inl err
      | Inr tot \<Rightarrow> split_samples tot n world_size)"

definition ceil_div_exact :: "int \<Rightarrow> int \<Rightarrow> int" where
  \<comment> \<open>the ceiling of \<open>a / b\<close> in exact integer arithmetic, for comparison with line 165\<close>
  "ceil_div_exact a b = - ((- a) div b)"

subsection \<open>Sample indices (lines 176, 211 to 214)\<close>

definition batch_indices :: "int \<Rightarrow> int \<Rightarrow> int \<Rightarrow> int \<Rightarrow> int list" where
  \<comment> \<open>\<^verbatim>\<open>index = i * dist.get_world_size() + rank + total\<close> for each \<open>i\<close> of
      \<^verbatim>\<open>enumerate(samples)\<close>, a batch of \<open>n\<close> samples\<close>
  "batch_indices n world_size rank tot =
     map (\<lambda>i. int i * world_size + rank + tot) [0..<nat n]"

fun worker_indices :: "nat \<Rightarrow> int \<Rightarrow> int \<Rightarrow> int \<Rightarrow> int \<Rightarrow> int list" where
  \<comment> \<open>the indices one rank assigns over the remaining iterations of the loop, the running
      \<^verbatim>\<open>total\<close> advanced by \<^verbatim>\<open>global_batch_size\<close> after each\<close>
  "worker_indices 0 n world_size rank tot = []"
| "worker_indices (Suc k) n world_size rank tot =
     batch_indices n world_size rank tot
       @ worker_indices k n world_size rank (tot + n * world_size)"

definition all_indices :: "sample_plan \<Rightarrow> int \<Rightarrow> int \<Rightarrow> int list" where
  \<comment> \<open>every index assigned in a run, rank by rank; each rank starts at \<^verbatim>\<open>total = 0\<close>\<close>
  "all_indices p n world_size =
     concat (map (\<lambda>r. worker_indices (nat (iterations p)) n world_size (int r) 0)
               [0..<nat world_size])"

subsection \<open>Strings and paths\<close>

definition digit_char :: "int \<Rightarrow> char" where
  "digit_char d = ''0123456789'' ! nat d"

function decimal :: "int \<Rightarrow> string" where
  \<comment> \<open>\<^verbatim>\<open>str(n)\<close> for \<open>n \<ge> 0\<close>\<close>
  "decimal n = (if n < 10 then [digit_char n] else decimal (n div 10) @ [digit_char (n mod 10)])"
  by pat_completeness auto
termination
  by (relation "measure nat") auto

declare decimal.simps [simp del]

definition zero_pad :: "nat \<Rightarrow> string \<Rightarrow> string" where
  "zero_pad w s = replicate (w - length s) CHR ''0'' @ s"

definition format_06d :: "int \<Rightarrow> string" where
  \<comment> \<open>the format specification \<^verbatim>\<open>:06d\<close>\<close>
  "format_06d i =
     (if i < 0 then CHR ''-'' # zero_pad 5 (decimal (- i)) else zero_pad 6 (decimal i))"

definition zfill :: "nat \<Rightarrow> string \<Rightarrow> string" where
  \<comment> \<open>\<^verbatim>\<open>str.zfill\<close>: the zeros go after a leading sign\<close>
  "zfill w s =
     (case s of
        [] \<Rightarrow> replicate w CHR ''0''
      | c # r \<Rightarrow>
          if c = CHR ''+'' \<or> c = CHR ''-'' then c # replicate (w - length s) CHR ''0'' @ r
          else replicate (w - length s) CHR ''0'' @ s)"

definition path_join :: "string \<Rightarrow> string \<Rightarrow> string" where
  \<comment> \<open>\<^verbatim>\<open>os.path.join\<close> of two components\<close>
  "path_join a b =
     (if b \<noteq> [] \<and> hd b = CHR ''/'' then b
      else if a = [] \<or> last a = CHR ''/'' then a @ b
      else a @ ''/'' @ b)"

definition basename :: "string \<Rightarrow> string" where
  \<comment> \<open>\<^verbatim>\<open>os.path.basename\<close>: what follows the last slash\<close>
  "basename p = rev (takeWhile (\<lambda>c. c \<noteq> CHR ''/'') (rev p))"

function replace_from :: "string \<Rightarrow> string \<Rightarrow> string \<Rightarrow> string" where
  \<comment> \<open>the scan of \<^verbatim>\<open>str.replace\<close> for a non-empty \<open>old\<close>: left to right, the
      occurrences not overlapping\<close>
  "replace_from old new [] = []"
| "replace_from old new (c # cs) =
     (if old \<noteq> [] \<and> take (length old) (c # cs) = old
      then new @ replace_from old new (drop (length old) (c # cs))
      else c # replace_from old new cs)"
  by pat_completeness auto
termination
  by (relation "measure (\<lambda>(old, new, s). length s)") auto

definition str_replace :: "string \<Rightarrow> string \<Rightarrow> string \<Rightarrow> string" where
  \<comment> \<open>\<^verbatim>\<open>s.replace(old, new)\<close>; an empty \<open>old\<close> matches before every character and at
      the end\<close>
  "str_replace s old new =
     (if old = [] then new @ concat (map (\<lambda>c. c # new) s) else replace_from old new s)"

definition png_path :: "string \<Rightarrow> int \<Rightarrow> string" where
  \<comment> \<open>\<^verbatim>\<open>f"{sample_dir}/{i:06d}.png"\<close>\<close>
  "png_path sample_dir i = sample_dir @ ''/'' @ format_06d i @ ''.png''"

definition npz_path :: "string \<Rightarrow> string" where
  \<comment> \<open>\<^verbatim>\<open>f"{sample_dir}.npz"\<close>\<close>
  "npz_path sample_dir = sample_dir @ ''.npz''"

subsection \<open>Command line, configuration and environment\<close>

datatype pyfloat = Finite real | PosInf | NegInf | NaN

definition float_ge_one :: "pyfloat \<Rightarrow> bool" where
  \<comment> \<open>\<^verbatim>\<open>x >= 1.0\<close>\<close>
  "float_ge_one x =
     (case x of Finite r \<Rightarrow> 1 \<le> r | PosInf \<Rightarrow> True | NegInf \<Rightarrow> False | NaN \<Rightarrow> False)"

record args =
  global_seed :: int
  tf32 :: bool
  sample_dir :: string
  exp_path :: "string option"
  train_steps :: "string option"
  pproc_batch_size :: int
  num_fid_samples :: int
  mode :: string
  cfg_scale :: pyfloat
  path_type :: string
  num_steps :: int
  heun :: bool
  guidance_low :: pyfloat
  guidance_high :: pyfloat

record config =
  vae :: string
  resolution :: int
  num_classes :: int
  vae_ckpt :: string

record ndarray =
  shape :: "nat list"
  elems :: "nat list"

datatype node = Directory | PngFile ndarray | NpzFile ndarray | OtherFile

type_synonym filesystem = "string \<Rightarrow> node option"

text \<open>
  Every call into PyTorch, PIL, NumPy, the operating system or the process group is
  recorded, in order.  Such a call may return, raise, or never return (a collective
  whose peers do not arrive); which one is decided by the environment.
\<close>

datatype call =
    SetGradEnabled
  | InitProcessGroup
  | ManualSeed int
  | SetDevice int
  | LoadConfig string
  | LoadEncoders
  | BuildModel int int
  | LoadCheckpoint string
  | LoadModelState
  | BuildVae string
  | LoadVaeCheckpoint string
  | LoadLatentStats string
  | LoadVaeState
  | EmptyCache
  | PathExists string
  | MakeDirs string
  | Broadcast
  | Barrier
  | DestroyProcessGroup
  | ReportParameters
  | Randn int
  | Randint int
  | EulerMaruyamaSampler
  | EulerSampler
  | VaeDecode
  | SaveImage string
  | OpenImage string
  | Savez string

datatype stop = Raised error | Blocked

record env =
  cuda_available :: bool
  device_count :: int
  rank :: int
  world_size :: int
  config_json :: "string \<Rightarrow> config"
  ckpt_has_vae :: bool
  float_str :: "pyfloat \<Rightarrow> string"
  fails :: "nat \<Rightarrow> call \<Rightarrow> stop option"
  skip_received :: bool
  decoded :: "nat \<Rightarrow> nat \<Rightarrow> ndarray"
  peer_files :: filesystem

text \<open>
  \<open>rank\<close> and \<open>world_size\<close> are what \<^verbatim>\<open>dist.get_rank()\<close> and
  \<^verbatim>\<open>dist.get_world_size()\<close> return; \<open>config_json\<close> is the content of an
  \<^verbatim>\<open>args.json\<close>; \<open>float_str\<close> is how an f-string renders a float; \<open>fails k c\<close> is the
  outcome of the call \<open>c\<close> made after \<open>k\<close> earlier calls; \<open>skip_received\<close> is the flag a
  rank other than \<open>0\<close> receives in the broadcast; \<open>decoded k i\<close> is image \<open>i\<close> of the
  batch decoded in iteration \<open>k\<close>; \<open>peer_files\<close> are the files the other ranks have
  written by the barrier that ends sampling.
\<close>

subsection \<open>Programs with a file system, a call log and exceptions\<close>

record world =
  files :: filesystem
  calls :: "call list"

type_synonym 'a prog = "world \<Rightarrow> (stop + 'a) \<times> world"

definition ret :: "'a \<Rightarrow> 'a prog" where
  "ret x w = (Inr x, w)"

definition throw :: "error \<Rightarrow> 'a prog" where
  "throw err w = (Inl (Raised err), w)"

definition thn :: "'a prog \<Rightarrow> ('a \<Rightarrow> 'b prog) \<Rightarrow> 'b prog" where
  "thn m f w = (case m w of (Inl st, w') \<Rightarrow> (Inl st, w') | (Inr x, w') \<Rightarrow> f x w')"

definition lift :: "error + 'a \<Rightarrow> 'a prog" where
  "lift r = (case r of Inl err \<Rightarrow> throw err | Inr x \<Rightarrow> ret x)"

definition invoke :: "env \<Rightarrow> call \<Rightarrow> unit prog" where
  "invoke e c w =
     (let w' = w\<lparr>calls := calls w @ [c]\<rparr>
      in case fails e (length (calls w)) c of
           Some st \<Rightarrow> (Inl st, w')
         | None \<Rightarrow> (Inr (), w'))"

definition path_exists :: "env \<Rightarrow> string \<Rightarrow> bool prog" where
  \<comment> \<open>\<^verbatim>\<open>os.path.exists\<close>\<close>
  "path_exists e p = thn (invoke e (PathExists p)) (\<lambda>_ w. (Inr (files w p \<noteq> None), w))"

definition makedirs :: "env \<Rightarrow> string \<Rightarrow> unit prog" where
  \<comment> \<open>\<^verbatim>\<open>os.makedirs(p, exist_ok=True)\<close>\<close>
  "makedirs e p =
     thn (invoke e (MakeDirs p)) (\<lambda>_ w.
       case files w p of
         None \<Rightarrow> (Inr (), w\<lparr>files := (files w)(p \<mapsto> Directory)\<rparr>)
       | Some Directory \<Rightarrow> (Inr (), w)
       | Some _ \<Rightarrow> (Inl (Raised (FileExistsError p)), w))"

definition save_image :: "env \<Rightarrow> string \<Rightarrow> ndarray \<Rightarrow> unit prog" where
  \<comment> \<open>\<^verbatim>\<open>Image.fromarray(sample).save(p)\<close>\<close>
  "save_image e p img =
     thn (invoke e (SaveImage p)) (\<lambda>_ w. (Inr (), w\<lparr>files := (files w)(p \<mapsto> PngFile img)\<rparr>))"

definition open_image :: "env \<Rightarrow> string \<Rightarrow> ndarray prog" where
  \<comment> \<open>\<^verbatim>\<open>np.asarray(Image.open(p)).astype(np.uint8)\<close>\<close>
  "open_image e p =
     thn (invoke e (OpenImage p)) (\<lambda>_ w.
       case files w p of
         None \<Rightarrow> (Inl (Raised (FileNotFoundError p)), w)
       | Some Directory \<Rightarrow> (Inl (Raised (IsADirectoryError p)), w)
       | Some (PngFile img) \<Rightarrow> (Inr img, w)
       | Some _ \<Rightarrow> (Inl (Raised (UnidentifiedImageError p)), w))"

definition savez :: "env \<Rightarrow> string \<Rightarrow> ndarray \<Rightarrow> unit prog" where
  \<comment> \<open>\<^verbatim>\<open>np.savez(p, arr_0=samples)\<close>; a call that fails is taken to have written nothing\<close>
  "savez e p arr =
     thn (invoke e (Savez p)) (\<lambda>_ w. (Inr (), w\<lparr>files := (files w)(p \<mapsto> NpzFile arr)\<rparr>))"

definition sync_peers :: "env \<Rightarrow> unit prog" where
  \<comment> \<open>once the barrier is passed, the files of the other ranks are there\<close>
  "sync_peers e w = (Inr (), w\<lparr>files := files w ++ peer_files e\<rparr>)"

subsection \<open>The archive builder (lines 35 to 49)\<close>

definition np_stack :: "ndarray list \<Rightarrow> error + ndarray" where
  \<comment> \<open>\<^verbatim>\<open>np.stack\<close>: the arrays must be at least one and of one shape\<close>
  "np_stack xs =
     (case xs of
        [] \<Rightarrow> Inl ValueError
      | x # _ \<Rightarrow>
          if list_all (\<lambda>y. shape y = shape x) xs
          then Inr \<lparr>shape = length xs # shape x, elems = concat (map elems xs)\<rparr>
          else Inl ValueError)"

definition check_shape :: "ndarray \<Rightarrow> int \<Rightarrow> error + unit" where
  \<comment> \<open>\<^verbatim>\<open>assert samples.shape == (num, samples.shape[1], samples.shape[2], 3)\<close>\<close>
  "check_shape arr num =
     (if length (shape arr) < 3 then Inl IndexError
      else py_assert
             (map int (shape arr) = [num, int (shape arr ! 1), int (shape arr ! 2), 3]) [])"

fun read_samples :: "env \<Rightarrow> string \<Rightarrow> nat list \<Rightarrow> ndarray list prog" where
  \<comment> \<open>the loop of lines 40 to 43\<close>
  "read_samples e dir [] = ret []"
| "read_samples e dir (i # rest) =
     thn (open_image e (png_path dir (int i))) (\<lambda>sample_np.
     thn (read_samples e dir rest) (\<lambda>samples.
     ret (sample_np # samples)))"

definition create_npz_from_sample_folder :: "env \<Rightarrow> string \<Rightarrow> int \<Rightarrow> string prog" where
  "create_npz_from_sample_folder e dir num =
     thn (read_samples e dir [0..<nat num]) (\<lambda>samples.
     thn (lift (np_stack samples)) (\<lambda>arr.
     thn (lift (check_shape arr num)) (\<lambda>_.
     thn (savez e (npz_path dir) arr) (\<lambda>_.
     ret (npz_path dir)))))"

subsection \<open>The driver (lines 52 to 222)\<close>

definition init_worker :: "args \<Rightarrow> env \<Rightarrow> unit prog" where
  \<comment> \<open>lines 56 to 67\<close>
  "init_worker a e =
     thn (lift (py_assert (cuda_available e)
       ''Sampling with DDP requires at least one GPU. sample.py supports CPU-only usage''))
       (\<lambda>_.
     thn (invoke e SetGradEnabled) (\<lambda>_.
     thn (invoke e InitProcessGroup) (\<lambda>_.
     thn (if device_count e = 0 then throw ZeroDivisionError
          else ret (rank e mod device_count e)) (\<lambda>device.
     thn (invoke e (ManualSeed (derive_seed (global_seed a) (rank e) (world_size e)))) (\<lambda>_.
     invoke e (SetDevice device))))))"

definition resolve_paths :: "args \<Rightarrow> string \<times> string" where
  \<comment> \<open>lines 69 to 73: the experiment directory and the training step\<close>
  "resolve_paths a =
     (case (exp_path a, train_steps a) of
        (Some p, Some t) \<Rightarrow> (p, t)
      | _ \<Rightarrow> (''pretrained/sit-xl-dinov2-b-enc8-repae-sdvae-0.5-1.5-400k'', ''400000''))"

definition load_models :: "args \<Rightarrow> env \<Rightarrow> unit prog" where
  \<comment> \<open>lines 75 to 140\<close>
  "load_models a e =
     (let exp = fst (resolve_paths a);
          train_step_str = zfill 7 (snd (resolve_paths a));
          cfg_path = path_join exp ''args.json'';
          cfg = config_json e cfg_path
      in
     thn (invoke e (LoadConfig cfg_path)) (\<lambda>_.
     thn (if vae cfg = ''f8d4'' then ret (resolution cfg div 8, 4)
          else if vae cfg = ''f16d32'' then ret (resolution cfg div 16, 32)
          else throw NotImplementedError) (\<lambda>(latent_size, in_channels).
     thn (invoke e LoadEncoders) (\<lambda>_.
     thn (invoke e (BuildModel latent_size in_channels)) (\<lambda>_.
     thn (invoke e (LoadCheckpoint
            (path_join (path_join exp ''checkpoints'') (train_step_str @ ''.pt'')))) (\<lambda>_.
     thn (invoke e LoadModelState) (\<lambda>_.
     thn (invoke e (BuildVae (vae cfg))) (\<lambda>_.
     thn (if ckpt_has_vae e then ret ()
          else thn (invoke e (LoadVaeCheckpoint (vae_ckpt cfg))) (\<lambda>_.
               invoke e (LoadLatentStats
                 (str_replace (vae_ckpt cfg) ''.pt'' ''-latents-stats.pt'')))) (\<lambda>_.
     thn (invoke e LoadVaeState) (\<lambda>_.
     invoke e EmptyCache))))))))))"

definition sample_folder_dir :: "args \<Rightarrow> env \<Rightarrow> string" where
  \<comment> \<open>line 144\<close>
  "sample_folder_dir a e =
     sample_dir a @ ''/'' @ basename (fst (resolve_paths a)) @ ''_''
       @ zfill 7 (snd (resolve_paths a)) @ ''_cfg'' @ float_str e (cfg_scale a)
       @ ''-'' @ float_str e (guidance_low a) @ ''-'' @ float_str e (guidance_high a)"

definition skip_check :: "args \<Rightarrow> env \<Rightarrow> bool prog" where
  \<comment> \<open>lines 145 to 156: the value of \<^verbatim>\<open>skip.item()\<close>\<close>
  "skip_check a e =
     thn (if rank e = 0
          then thn (path_exists e (npz_path (sample_folder_dir a e))) (\<lambda>found.
                 if found then ret True
                 else thn (makedirs e (sample_folder_dir a e)) (\<lambda>_. ret False))
          else ret False) (\<lambda>skip.
     thn (invoke e Broadcast) (\<lambda>_.
     ret (if rank e = 0 then skip else skip_received e)))"

fun save_images :: "env \<Rightarrow> string \<Rightarrow> nat \<Rightarrow> (nat \<times> int) list \<Rightarrow> unit prog" where
  \<comment> \<open>lines 211 to 213, over the pairs \<open>(i, index)\<close>\<close>
  "save_images e folder k [] = ret ()"
| "save_images e folder k ((i, index) # rest) =
     thn (save_image e (png_path folder index) (decoded e k i)) (\<lambda>_.
     save_images e folder k rest)"

definition heun_message :: string where
  \<comment> \<open>the message of line 182; \<open>CHR 0x27\<close> is the apostrophe\<close>
  "heun_message = ''Heun'' @ [CHR 0x27] @ ''s method is only available for ODE sampling.''"

definition sample_batch :: "args \<Rightarrow> env \<Rightarrow> nat \<Rightarrow> int \<Rightarrow> unit prog" where
  \<comment> \<open>one iteration of the loop, lines 178 to 213, with the running \<^verbatim>\<open>total\<close>\<close>
  "sample_batch a e k tot =
     (let n = pproc_batch_size a in
     thn (invoke e (Randn n)) (\<lambda>_.
     thn (if n < 0 then throw (ExternalError ''randn'') else ret ()) (\<lambda>_.
     thn (invoke e (Randint n)) (\<lambda>_.
     thn (lift (py_assert (\<not> heun a \<or> mode a = ''ode'') heun_message)) (\<lambda>_.
     thn (if mode a = ''sde'' then invoke e EulerMaruyamaSampler
          else if mode a = ''ode'' then invoke e EulerSampler
          else throw NotImplementedError) (\<lambda>_.
     thn (invoke e VaeDecode) (\<lambda>_.
     save_images e (sample_folder_dir a e) k
       (zip [0..<nat n] (batch_indices n (world_size e) (rank e) tot)))))))))"

fun sampling_loop :: "args \<Rightarrow> env \<Rightarrow> nat list \<Rightarrow> int \<Rightarrow> unit prog" where
  \<comment> \<open>lines 176 to 214: \<^verbatim>\<open>total += global_batch_size\<close> after each iteration\<close>
  "sampling_loop a e [] tot = ret ()"
| "sampling_loop a e (k # ks) tot =
     thn (sample_batch a e k tot) (\<lambda>_.
     sampling_loop a e ks (tot + pproc_batch_size a * world_size e))"

definition sample_all :: "args \<Rightarrow> env \<Rightarrow> unit prog" where
  \<comment> \<open>lines 162 to 214\<close>
  "sample_all a e =
     thn (lift (compute_total_samples (num_fid_samples a) (pproc_batch_size a) (world_size e)))
       (\<lambda>tot.
     thn (if rank e = 0 then invoke e ReportParameters else ret ()) (\<lambda>_.
     thn (lift (split_samples tot (pproc_batch_size a) (world_size e))) (\<lambda>p.
     sampling_loop a e [0..<nat (iterations p)] 0)))"

definition finish :: "args \<Rightarrow> env \<Rightarrow> unit prog" where
  \<comment> \<open>lines 217 to 222\<close>
  "finish a e =
     thn (invoke e Barrier) (\<lambda>_.
     thn (sync_peers e) (\<lambda>_.
     thn (if rank e = 0
          then thn (create_npz_from_sample_folder e (sample_folder_dir a e) (num_fid_samples a))
                 (\<lambda>_. ret ())
          else ret ()) (\<lambda>_.
     thn (invoke e Barrier) (\<lambda>_.
     invoke e DestroyProcessGroup))))"

definition prepare :: "args \<Rightarrow> env \<Rightarrow> unit prog" where
  \<comment> \<open>lines 56 to 140\<close>
  "prepare a e = thn (init_worker a e) (\<lambda>_. load_models a e)"

definition startup :: "args \<Rightarrow> env \<Rightarrow> bool prog" where
  \<comment> \<open>lines 56 to 156: everything up to the value of \<^verbatim>\<open>skip.item()\<close>\<close>
  "startup a e =
     thn (prepare a e) (\<lambda>_.
     thn (lift (py_assert (float_ge_one (cfg_scale a)) ''cfg_scale should be >= 1.0'')) (\<lambda>_.
     skip_check a e))"

definition main :: "args \<Rightarrow> env \<Rightarrow> unit prog" where
  "main a e =
     thn (startup a e) (\<lambda>skip.
     if skip then invoke e DestroyProcessGroup
     else thn (invoke e Barrier) (\<lambda>_.
          thn (sample_all a e) (\<lambda>_.
          finish a e)))"

subsection \<open>Reading the call log\<close>

definition new_calls :: "world \<Rightarrow> world \<Rightarrow> call list" where
  \<comment> \<open>the calls made between two worlds of one run\<close>
  "new_calls w w' = drop (length (calls w)) (calls w')"

fun is_sampler_call :: "call \<Rightarrow> bool" where
  "is_sampler_call EulerMaruyamaSampler = True"
| "is_sampler_call EulerSampler = True"
| "is_sampler_call _ = False"

fun is_save_call :: "call \<Rightarrow> bool" where
  "is_save_call (SaveImage p) = True"
| "is_save_call _ = False"

fun is_sampling_call :: "call \<Rightarrow> bool" where
  \<comment> \<open>the calls of the sampling loop\<close>
  "is_sampling_call (Randn n) = True"
| "is_sampling_call (Randint n) = True"
| "is_sampling_call EulerMaruyamaSampler = True"
| "is_sampling_call EulerSampler = True"
| "is_sampling_call VaeDecode = True"
| "is_sampling_call (SaveImage p) = True"
| "is_sampling_call _ = False"

fun seeds :: "call list \<Rightarrow> int list" where
  \<comment> \<open>the arguments of \<^verbatim>\<open>torch.manual_seed\<close>\<close>
  "seeds [] = []"
| "seeds (ManualSeed s # cs) = s # seeds cs"
| "seeds (_ # cs) = seeds cs"

fun opened :: "call list \<Rightarrow> string list" where
  \<comment> \<open>the paths given to \<^verbatim>\<open>Image.open\<close>\<close>
  "opened [] = []"
| "opened (OpenImage p # cs) = p # opened cs"
| "opened (_ # cs) = opened cs"

fun saved :: "call list \<Rightarrow> string list" where
  \<comment> \<open>the paths given to \<^verbatim>\<open>Image.save\<close>\<close>
  "saved [] = []"
| "saved (SaveImage p # cs) = p # saved cs"
| "saved (_ # cs) = saved cs"

fun path_checks :: "call list \<Rightarrow> string list" where
  \<comment> \<open>the paths given to \<^verbatim>\<open>os.path.exists\<close>\<close>
  "path_checks [] = []"
| "path_checks (PathExists p # cs) = p # path_checks cs"
| "path_checks (_ # cs) = path_checks cs"

definition float_lt_one :: "pyfloat \<Rightarrow> bool" where
  \<comment> \<open>\<^verbatim>\<open>x < 1.0\<close>\<close>
  "float_lt_one x =
     (case x of Finite r \<Rightarrow> r < 1 | PosInf \<Rightarrow> False | NegInf \<Rightarrow> True | NaN \<Rightarrow> False)"

subsection \<open>A concrete run\<close>

definition demo_float_str :: "pyfloat \<Rightarrow> string" where
  "demo_float_str x =
     (case x of
        Finite r \<Rightarrow>
          if r = 0 then ''0.0'' else if r = 1 / 2 then ''0.5'' else if r = 1 then ''1.0''
          else if r = 3 / 2 then ''1.5'' else ''2.0''
      | PosInf \<Rightarrow> ''inf'' | NegInf \<Rightarrow> ''-inf'' | NaN \<Rightarrow> ''nan'')"

definition demo_args :: args where
  "demo_args =
     \<lparr>global_seed = 0, tf32 = True, sample_dir = ''samples'', exp_path = Some ''exps/run'',
      train_steps = Some ''400000'', pproc_batch_size = 1, num_fid_samples = 1,
      mode = ''ode'', cfg_scale = Finite (3 / 2), path_type = ''linear'', num_steps = 50,
      heun = False, guidance_low = Finite 0, guidance_high = Finite 1\<rparr>"

definition demo_image :: ndarray where
  "demo_image = \<lparr>shape = [2, 2, 3], elems = replicate 12 0\<rparr>"

definition demo_env :: env where
  "demo_env =
     \<lparr>cuda_available = True, device_count = 1, rank = 0, world_size = 1,
      config_json = (\<lambda>_. \<lparr>vae = ''f8d4'', resolution = 256, num_classes = 1000,
                             vae_ckpt = []\<rparr>),
      ckpt_has_vae = True, float_str = demo_float_str, fails = (\<lambda>_ _. None),
      skip_received = False, decoded = (\<lambda>_ _. demo_image), peer_files = Map.empty\<rparr>"

definition demo_folder :: string where
  "demo_folder = ''samples/run_0400000_cfg1.5-0.0-1.0''"

definition empty_world :: world where
  "empty_world = \<lparr>files = Map.empty, calls = []\<rparr>"

definition low_cfg_args :: args where
  "low_cfg_args = demo_args\<lparr>cfg_scale := Finite (1 / 2)\<rparr>"

definition archived_world :: world where
  \<comment> \<open>the archive of the concrete run is already there\<close>
  "archived_world =
     \<lparr>files = [npz_path demo_folder \<mapsto> NpzFile \<lparr>shape = [1, 2, 2, 3], elems = replicate 12 0\<rparr>],
      calls = []\<rparr>"

definition sde_heun_args :: args where
  "sde_heun_args = demo_args\<lparr>mode := ''sde'', heun := True\<rparr>"

definition dir_world :: world where
  \<comment> \<open>the output directory of the concrete run is already there, its archive is not\<close>
  "dir_world = \<lparr>files = [demo_folder \<mapsto> Directory], calls = []\<rparr>"

definition two_images_world :: world where
  \<comment> \<open>the images of indices 0 and 1 of the concrete run are there\<close>
  "two_images_world =
     \<lparr>files = [png_path demo_folder 0 \<mapsto> PngFile demo_image,
               png_path demo_folder 1 \<mapsto> PngFile demo_image],
      calls = []\<rparr>"

definition interleave_args :: args where
  \<comment> \<open>seven samples requested in batches of two\<close>
  "interleave_args = demo_args\<lparr>pproc_batch_size := 2, num_fid_samples := 7\<rparr>"

definition rank_one_env :: env where
  \<comment> \<open>the second of three workers\<close>
  "rank_one_env = demo_env\<lparr>rank := 1, world_size := 3\<rparr>"


subsection \<open>Properties of programs\<close>

text \<open>\<open>logs P m\<close>: whatever \<open>m\<close> does, it appends calls satisfying \<open>P\<close> to the log.\<close>

definition logs :: "(call \<Rightarrow> bool) \<Rightarrow> 'a prog \<Rightarrow> bool" where
  "logs P m \<longleftrightarrow>
     (\<forall>w r w'. m w = (r, w') \<longrightarrow> (\<exists>cs. calls w' = calls w @ cs \<and> list_all P cs))"

text \<open>\<open>keeps_files m\<close>: \<open>m\<close> leaves the file system as it is.\<close>

definition keeps_files :: "'a prog \<Rightarrow> bool" where
  "keeps_files m \<longleftrightarrow> (\<forall>w r w'. m w = (r, w') \<longrightarrow> files w' = files w)"


section \<open>Verification\<close>

subsection \<open>Rounding of the true division\<close>

lemma bit_length_pos: "0 < n \<Longrightarrow> 1 \<le> bit_length n"
  by (induction n rule: bit_length.induct) (simp add: bit_length.simps)

lemma bit_length_nonneg: "0 \<le> bit_length n"
  by (induction n rule: bit_length.induct) (simp add: bit_length.simps)

lemma bit_length_upper: "0 < n \<Longrightarrow> n < 2 ^ nat (bit_length n)"
proof (induction n rule: bit_length.induct)
  case (1 n)
  show ?case
  proof (cases "n = 1")
    case True
    then show ?thesis by (simp add: bit_length.simps[of 1] bit_length.simps[of 0])
  next
    case False
    with "1.prems" have h: "0 < n div 2" by simp
    with "1.IH" have "n div 2 < 2 ^ nat (bit_length (n div 2))" using "1.prems" by simp
    moreover have "nat (bit_length n) = Suc (nat (bit_length (n div 2)))"
      using "1.prems" bit_length_nonneg[of "n div 2"] by (simp add: bit_length.simps[of n] nat_add_distrib)
    ultimately show ?thesis by simp
  qed
qed

lemma bit_length_lower: "0 < n \<Longrightarrow> 2 ^ nat (bit_length n - 1) \<le> n"
proof (induction n rule: bit_length.induct)
  case (1 n)
  show ?case
  proof (cases "n = 1")
    case True
    then show ?thesis by (simp add: bit_length.simps[of 1] bit_length.simps[of 0])
  next
    case False
    with "1.prems" have h: "0 < n div 2" by simp
    with "1.IH" have "2 ^ nat (bit_length (n div 2) - 1) \<le> n div 2" using "1.prems" by simp
    moreover have "nat (bit_length n - 1) = Suc (nat (bit_length (n div 2) - 1))"
      using "1.prems" bit_length_pos[OF h] by (simp add: bit_length.simps[of n] nat_add_distrib)
    ultimately show ?thesis by simp
  qed
qed

lemma round_half_even_le:
  assumes "0 < q" "p \<le> N * q"
  shows "round_half_even p q \<le> N"
proof -
  have "p div q \<le> (N * q) div q" using assms by (intro zdiv_mono1) simp_all
  then have d: "p div q \<le> N" using assms(1) by simp
  show ?thesis
  proof (cases "p mod q = 0")
    case True
    then show ?thesis using d assms by (simp add: round_half_even_def Let_def)
  next
    case False
    have "p div q \<noteq> N"
    proof
      assume "p div q = N"
      then have "p = N * q + p mod q" by (metis div_mult_mod_eq)
      moreover have "0 < p mod q" using False pos_mod_sign[OF assms(1), of p] by linarith
      ultimately show False using assms(2) by simp
    qed
    with d show ?thesis by (simp add: round_half_even_def Let_def)
  qed
qed

lemma round_half_even_gt:
  assumes "0 < q" "p = M * q + t" "0 < t" "q < 2 * t"
  shows "M < round_half_even p q"
proof (cases "t < q")
  case True
  then have "p div q = M" "p mod q = t" using assms by auto
  then show ?thesis using assms by (simp add: round_half_even_def Let_def)
next
  case False
  then have "(M + 1) * q \<le> p" using assms by (simp add: algebra_simps)
  then have "((M + 1) * q) div q \<le> p div q" using assms(1) by (intro zdiv_mono1) simp_all
  then have "M + 1 \<le> p div q" using assms(1) by simp
  then show ?thesis by (simp add: round_half_even_def Let_def)
qed

lemma ceil_div_eq:
  fixes x d K :: int
  assumes "0 < d" "(K - 1) * d < x" "x \<le> K * d"
  shows "- ((- x) div d) = K"
proof -
  have "(- K) * d \<le> - x" "- x < (- K + 1) * d" using assms by (simp_all add: algebra_simps)
  then have "(- x) div d = - K" using assms(1)
    by (intro int_div_pos_eq[where r = "- x - (- K) * d"]) (simp_all add: algebra_simps)
  then show ?thesis by simp
qed

lemma double_shift_cases:
  "double_shift a b = min (53 + bit_length b - bit_length a) 1074 \<and>
     scale_num a (53 + bit_length b - bit_length a) < 2 ^ 53 * scale_den b (53 + bit_length b - bit_length a)
   \<or> double_shift a b = min (53 + bit_length b - bit_length a - 1) 1074 \<and>
     \<not> scale_num a (53 + bit_length b - bit_length a) < 2 ^ 53 * scale_den b (53 + bit_length b - bit_length a)"
  by (simp add: double_shift_def Let_def)

lemma shift0_nonneg:
  assumes "0 < a" "0 < b" "a < 2 ^ 53 * b"
  shows "0 \<le> 53 + bit_length b - bit_length a"
proof (rule ccontr)
  assume "\<not> 0 \<le> 53 + bit_length b - bit_length a"
  then have lt: "53 + bit_length b \<le> bit_length a - 1" by simp
  have "0 \<le> bit_length b" by (rule bit_length_nonneg)
  then have "nat (53 + bit_length b) = 53 + nat (bit_length b)" by (simp add: nat_add_distrib)
  moreover have "nat (53 + bit_length b) \<le> nat (bit_length a - 1)" using lt by simp
  ultimately have "(2::int) ^ (53 + nat (bit_length b)) \<le> 2 ^ nat (bit_length a - 1)"
    by (simp add: power_increasing)
  also have "\<dots> \<le> a" using bit_length_lower[OF assms(1)] .
  finally have "2 ^ 53 * 2 ^ nat (bit_length b) \<le> a" by (simp add: power_add)
  moreover have "2 ^ 53 * b < (2 ^ 53 * 2 ^ nat (bit_length b) :: int)"
    using bit_length_upper[OF assms(2)] by simp
  ultimately show False using assms(3) by linarith
qed

lemma double_shift_nonneg:
  assumes "0 < a" "0 < b" "a < 2 ^ 53 * b"
  shows "0 \<le> double_shift a b"
proof -
  let ?s0 = "53 + bit_length b - bit_length a"
  have s0: "0 \<le> ?s0" using shift0_nonneg[OF assms] .
  from double_shift_cases[of a b] show ?thesis
  proof (elim disjE conjE)
    assume "double_shift a b = min ?s0 1074"
    then show ?thesis using s0 by simp
  next
    assume e: "double_shift a b = min (?s0 - 1) 1074"
      and n: "\<not> scale_num a ?s0 < 2 ^ 53 * scale_den b ?s0"
    have "?s0 \<noteq> 0"
    proof
      assume z: "?s0 = 0"
      then have "scale_num a ?s0 = a" "scale_den b ?s0 = b"
        by (simp_all add: scale_num_def scale_den_def)
      with n assms(3) show False by simp
    qed
    with s0 have "1 \<le> ?s0" by linarith
    with e show ?thesis by simp
  qed
qed

lemma double_shift_le: "double_shift a b \<le> 1074"
  by (simp add: double_shift_def Let_def)

lemma double_shift_normal:
  assumes "0 < a" "0 < b" "0 \<le> double_shift a b" "double_shift a b < 1074"
  shows "2 ^ 52 * b \<le> a * 2 ^ nat (double_shift a b)"
proof -
  let ?s0 = "53 + bit_length b - bit_length a"
  from double_shift_cases[of a b] show ?thesis
  proof (elim disjE conjE)
    assume e: "double_shift a b = min ?s0 1074"
    with assms have s: "double_shift a b = ?s0" "0 \<le> ?s0" by simp_all
    have la: "1 \<le> bit_length a" using bit_length_pos[OF assms(1)] .
    have lb: "0 \<le> bit_length b" by (rule bit_length_nonneg)
    have "nat (bit_length a - 1) + nat ?s0 = 52 + nat (bit_length b)"
      using s(2) la lb by linarith
    then have "(2::int) ^ nat (bit_length a - 1) * 2 ^ nat ?s0 = 2 ^ 52 * 2 ^ nat (bit_length b)"
      by (metis power_add)
    moreover have "2 ^ nat (bit_length a - 1) * 2 ^ nat ?s0 \<le> a * (2::int) ^ nat ?s0"
      using bit_length_lower[OF assms(1)] by (simp add: mult_right_mono)
    moreover have "2 ^ 52 * b \<le> (2 ^ 52 * 2 ^ nat (bit_length b) :: int)"
      using bit_length_upper[OF assms(2)] by simp
    ultimately show ?thesis using s(1) by simp
  next
    assume e: "double_shift a b = min (?s0 - 1) 1074"
      and n: "\<not> scale_num a ?s0 < 2 ^ 53 * scale_den b ?s0"
    with assms have s: "double_shift a b = ?s0 - 1" "1 \<le> ?s0" by simp_all
    then have "nat ?s0 = Suc (nat (?s0 - 1))" by linarith
    then have "(2::int) ^ nat ?s0 = 2 * 2 ^ nat (?s0 - 1)" by simp
    moreover have "2 ^ 53 * b \<le> a * 2 ^ nat ?s0"
      using n s(2) by (simp add: scale_num_def scale_den_def)
    ultimately show ?thesis using s(1) by simp
  qed
qed

lemma ceil_div_bounds:
  fixes a b :: int
  assumes "0 < b"
  shows "(- ((- a) div b) - 1) * b < a \<and> a \<le> - ((- a) div b) * b"
proof -
  define q where "q = (- a) div b"
  define r where "r = (- a) mod b"
  have "- a = b * q + r" by (simp add: q_def r_def)
  moreover have "0 \<le> r" "r < b" using assms by (simp_all add: r_def)
  ultimately have "(- q - 1) * b < a \<and> a \<le> - q * b" by (simp add: algebra_simps)
  then show ?thesis by (simp add: q_def)
qed

lemma true_div_max_exact: "true_div (2 ^ 53) 1 = Inr (2 ^ 52, 1)"
  by code_simp

lemma odd_times_even_lt:
  fixes b :: int
  assumes "odd b" "b \<le> 2 * c"
  shows "b < 2 * c"
  using assms by (metis dvd_triv_left order_le_less)

lemma ceil_true_div_exact:
  assumes a: "1 \<le> a" "a \<le> 2 ^ 53" and b: "1 \<le> b" "b < 2 ^ 1075"
  shows "\<exists>d. true_div a b = Inr d \<and> math_ceil d = - ((- a) div b)"
proof (cases "a = 2 ^ 53 \<and> b = 1")
  case True
  then have "true_div a b = Inr (2 ^ 52, 1)" using true_div_max_exact by simp
  moreover have "math_ceil (2 ^ 52, 1) = - ((- a) div b)" using True by (simp add: math_ceil_def)
  ultimately show ?thesis by blast
next
  case False
  define s where "s = double_shift a b"
  define K where "K = - ((- a) div b)"
  define t where "t = a - (K - 1) * b"
  define m where "m = round_half_even (a * 2 ^ nat s) b"
  have lt: "a < 2 ^ 53 * b"
  proof (cases "b = 1")
    case True with False a show ?thesis by simp
  next
    case False
    with b have "2 \<le> b" by simp
    then have "2 ^ 53 * 2 \<le> (2 ^ 53 * b :: int)" by simp
    with a show ?thesis by simp
  qed
  have s0: "0 \<le> s" unfolding s_def using a b lt by (intro double_shift_nonneg) simp_all
  have s1: "s \<le> 1074" unfolding s_def by (rule double_shift_le)
  have Kb: "(K - 1) * b < a" "a \<le> K * b"
    using ceil_div_bounds[of b a] b unfolding K_def by simp_all
  have t: "0 < t" "a = (K - 1) * b + t" using Kb by (simp_all add: t_def)
  have K1: "1 \<le> K"
  proof (rule ccontr)
    assume "\<not> 1 \<le> K"
    then have "K \<le> 0" by simp
    then have "K * b \<le> 0" using b by (simp add: mult_le_0_iff)
    with Kb(2) a show False by simp
  qed
  have pw: "(0::int) < 2 ^ nat s" by simp
  have half: "b < 2 * (t * 2 ^ nat s)"
  proof (cases "s = 1074")
    case True
    have "(1::int) * 2 ^ 1074 \<le> t * 2 ^ 1074" using t(1) by (intro mult_right_mono) simp_all
    with b True show ?thesis by simp
  next
    case False
    define X :: int where "X = 2 ^ nat s"
    have X: "0 < X" by (simp add: X_def)
    from False s1 have "s < 1074" by simp
    then have n: "2 ^ 52 * b \<le> a * X"
      using double_shift_normal[of a b] a b s0 unfolding s_def X_def by simp
    have tp: "1 * X \<le> t * X" using t(1) X by (intro mult_right_mono) simp_all
    have "b < 2 * (t * X)"
    proof (cases "a < 2 ^ 53")
      case True
      then have "a * X < 2 ^ 53 * X" using X by (intro mult_strict_right_mono)
      then have "a * X < 9007199254740992 * X" by simp
      moreover have "4503599627370496 * b \<le> a * X" using n by simp
      moreover have "X \<le> t * X" using tp by simp
      ultimately show ?thesis by linarith
    next
      case False
      with a have a53: "a = 2 ^ 53" by simp
      with n have le: "b \<le> 2 * X" by simp
      show ?thesis
      proof (cases "t = 1")
        case True
        with t(2) a53 have "(K - 1) * b = 2 ^ 53 - 1" by simp
        moreover have "odd (2 ^ 53 - 1 :: int)" by simp
        ultimately have "odd ((K - 1) * b)" by simp
        then have "odd b" by simp
        from odd_times_even_lt[OF this le] True show ?thesis by simp
      next
        case False
        with t(1) have "2 \<le> t" by simp
        then have "2 * X \<le> t * X" using X by (intro mult_right_mono) simp_all
        with le X show ?thesis by linarith
      qed
    qed
    then show ?thesis unfolding X_def by simp
  qed
  have bp: "0 < b" using b by simp
  have "a * 2 ^ nat s = ((K - 1) * b + t) * 2 ^ nat s"
    using t(2) by simp
  then have "a * 2 ^ nat s = ((K - 1) * 2 ^ nat s) * b + t * 2 ^ nat s"
    by (simp only: algebra_simps)
  from round_half_even_gt[OF bp this _ half] t(1)
  have lo: "(K - 1) * 2 ^ nat s < m" unfolding m_def by simp
  have "a * 2 ^ nat s \<le> (K * b) * 2 ^ nat s" using Kb(2) by (intro mult_right_mono) simp_all
  then have "a * 2 ^ nat s \<le> (K * 2 ^ nat s) * b" by (simp add: algebra_simps)
  from round_half_even_le[OF bp this] have hi: "m \<le> K * 2 ^ nat s" unfolding m_def .
  have dr: "double_of_ratio a b = (m, - s)"
    using s0 bp by (simp add: double_of_ratio_def Let_def s_def[symmetric] m_def scale_num_def scale_den_def)
  have KA: "K \<le> a"
  proof -
    have "(K - 1) * 1 \<le> (K - 1) * b" using K1 b by (intro mult_left_mono) simp_all
    with Kb(1) show ?thesis by simp
  qed
  have cl: "math_ceil (m, - s) = K"
  proof (cases "s = 0")
    case True
    with lo hi have "m = K" by simp
    with True show ?thesis by (simp add: math_ceil_def)
  next
    case False
    with s0 have "0 < s" by simp
    moreover have "- ((- m) div 2 ^ nat s) = K" using lo hi by (intro ceil_div_eq) simp_all
    ultimately show ?thesis by (simp add: math_ceil_def)
  qed
  have no: "\<not> (0 \<le> - s \<and> (2::int) ^ 1024 \<le> m * 2 ^ nat (- s))"
  proof
    assume h: "0 \<le> - s \<and> (2::int) ^ 1024 \<le> m * 2 ^ nat (- s)"
    with s0 have "s = 0" by simp
    with h hi have "2 ^ 1024 \<le> K" by simp
    with KA a show False by simp
  qed
  have "true_div a b = Inr (m, - s)"
    using a b no by (simp add: true_div_def dr)
  with cl show ?thesis unfolding K_def by blast
qed


subsection \<open>Batch planning\<close>

lemma split_samples_multiple:
  assumes "n \<noteq> 0" "w \<noteq> 0"
  shows "split_samples (c * (n * w)) n w =
     Inr \<lparr>total_samples = c * (n * w), samples_needed_this_gpu = c * n, iterations = c\<rparr>"
proof -
  have "c * (n * w) = (c * n) * w" by simp
  then have d: "c * (n * w) div w = c * n" using assms(2) by (metis nonzero_mult_div_cancel_right)
  have m: "c * (n * w) mod w = 0" by simp
  show ?thesis using assms by (simp add: split_samples_def py_assert_def d m Let_def)
qed

lemma plan_cases:
  "plan r n w = Inl ZeroDivisionError \<or> plan r n w = Inl OverflowError
   \<or> (\<exists>q. true_div r (n * w) = Inr q \<and> plan r n w = split_samples (math_ceil q * (n * w)) n w)"
  by (auto simp: plan_def compute_total_samples_def true_div_def Let_def split: prod.splits sum.splits)

lemma plan_exact:
  assumes "1 \<le> r" "r \<le> 2 ^ 53" "1 \<le> n" "1 \<le> w" "n * w < 2 ^ 1075"
  shows "plan r n w = Inr \<lparr>total_samples = ceil_div_exact r (n * w) * (n * w),
            samples_needed_this_gpu = ceil_div_exact r (n * w) * n,
            iterations = ceil_div_exact r (n * w)\<rparr>"
proof -
  have "1 * 1 \<le> n * w" using assms by (intro mult_mono) simp_all
  then have "1 \<le> n * w" by simp
  from ceil_true_div_exact[OF assms(1,2) this assms(5)]
  obtain d where d: "true_div r (n * w) = Inr d" "math_ceil d = ceil_div_exact r (n * w)"
    unfolding ceil_div_exact_def by blast
  have "plan r n w = split_samples (ceil_div_exact r (n * w) * (n * w)) n w"
    using d by (simp add: plan_def compute_total_samples_def Let_def)
  then show ?thesis using assms by (simp add: split_samples_multiple)
qed

lemma ceil_div_exact_least:
  assumes "0 < b"
  shows "a \<le> ceil_div_exact a b * b"
    and "b dvd m \<Longrightarrow> a \<le> m \<Longrightarrow> ceil_div_exact a b * b \<le> m"
proof -
  show "a \<le> ceil_div_exact a b * b"
    using ceil_div_bounds[OF assms, of a] by (simp add: ceil_div_exact_def)
  assume "b dvd m" "a \<le> m"
  from \<open>b dvd m\<close> obtain k0 where "m = b * k0" by (rule dvdE)
  then have k: "m = k0 * b" by (simp only: mult.commute)
  have "(ceil_div_exact a b - 1) * b < k0 * b"
    using ceil_div_bounds[OF assms, of a] \<open>a \<le> m\<close> k by (simp add: ceil_div_exact_def)
  then have "ceil_div_exact a b - 1 < k0" using assms by (simp add: mult_less_cancel_right)
  then have "ceil_div_exact a b * b \<le> k0 * b" using assms by (intro mult_right_mono) simp_all
  with k show "ceil_div_exact a b * b \<le> m" by simp
qed

text \<open>
  Within the precision of a double the float ceiling of line 165 is the exact one: for a
  requested count from \<open>1\<close> to \<open>2 ^ 53\<close>, \<open>n \<ge> 1\<close> and \<open>world_size \<ge> 1\<close> (with
  \<open>n * world_size < 2 ^ 1075\<close>) the plan succeeds, \<open>total_samples\<close> is the smallest multiple
  of \<open>n * world_size\<close> that is at least the requested count,
  \<open>samples_needed_this_gpu\<close> is \<open>total_samples / world_size\<close> and an exact multiple of
  \<open>n\<close>, and \<open>iterations\<close> is \<open>samples_needed_this_gpu / n\<close>.  For \<open>requested = 100\<close>,
  \<open>n = 10\<close>, \<open>world_size = 4\<close> the plan is \<open>120\<close>, \<open>30\<close>, \<open>3\<close>.
\<close>

lemma plan_exact_in_double_range:
  assumes "1 \<le> requested" "requested \<le> 2 ^ 53" "1 \<le> n" "1 \<le> ws"
    and "n * ws < 2 ^ 1075"
  shows "(\<exists>p. plan requested n ws = Inr p
           \<and> (n * ws) dvd total_samples p
           \<and> requested \<le> total_samples p
           \<and> (\<forall>m. (n * ws) dvd m \<and> requested \<le> m \<longrightarrow> total_samples p \<le> m)
           \<and> samples_needed_this_gpu p = total_samples p div ws
           \<and> samples_needed_this_gpu p * ws = total_samples p
           \<and> n dvd samples_needed_this_gpu p
           \<and> iterations p = samples_needed_this_gpu p div n
           \<and> iterations p * n = samples_needed_this_gpu p)
      \<and> plan 100 10 4 =
           Inr \<lparr>total_samples = 120, samples_needed_this_gpu = 30, iterations = 3\<rparr>"
proof -
  have pos: "0 < n * ws" using assms by simp
  define K where "K = ceil_div_exact requested (n * ws)"
  define p where "p = \<lparr>total_samples = K * (n * ws),
    samples_needed_this_gpu = K * n, iterations = K\<rparr>"
  have pl: "plan requested n ws = Inr p"
    unfolding p_def K_def by (rule plan_exact[OF assms])
  have t: "total_samples p = K * (n * ws)"
    and g: "samples_needed_this_gpu p = K * n" and i: "iterations p = K"
    by (simp_all add: p_def)
  have c1: "(n * ws) dvd total_samples p" by (simp add: t)
  have c2: "requested \<le> total_samples p"
    using ceil_div_exact_least(1)[OF pos, of requested] by (simp add: t K_def)
  have c3: "\<forall>m. (n * ws) dvd m \<and> requested \<le> m \<longrightarrow> total_samples p \<le> m"
    using ceil_div_exact_least(2)[OF pos] by (simp add: t K_def)
  have "K * (n * ws) = (K * n) * ws" by simp
  then have d: "K * (n * ws) div ws = K * n"
    using assms(4) by (metis nonzero_mult_div_cancel_right not_one_le_zero)
  have c4: "samples_needed_this_gpu p = total_samples p div ws" by (simp only: t g d)
  have c5: "samples_needed_this_gpu p * ws = total_samples p" by (simp add: t g)
  have c6: "n dvd samples_needed_this_gpu p" by (simp add: g)
  have c7: "iterations p = samples_needed_this_gpu p div n" using assms(3) by (simp add: g i)
  have c8: "iterations p * n = samples_needed_this_gpu p" by (simp add: g i)
  have ex: "plan 100 10 4 =
      Inr \<lparr>total_samples = 120, samples_needed_this_gpu = 30, iterations = 3\<rparr>"
    by code_simp
  from pl c1 c2 c3 c4 c5 c6 c7 c8 ex show ?thesis by blast
qed

lemma plan_exact_in_double_range_example:
  "\<exists>p. plan 7 2 3 = Inr p \<and> 6 dvd total_samples p \<and> 7 \<le> total_samples p
     \<and> (\<forall>m. 6 dvd m \<and> 7 \<le> m \<longrightarrow> total_samples p \<le> m)
     \<and> samples_needed_this_gpu p * 3 = total_samples p
     \<and> 2 dvd samples_needed_this_gpu p
     \<and> iterations p * 2 = samples_needed_this_gpu p"
proof -
  have "\<exists>p. plan 7 2 3 = Inr p \<and> (2 * 3) dvd total_samples p \<and> 7 \<le> total_samples p
     \<and> (\<forall>m. (2 * 3) dvd m \<and> 7 \<le> m \<longrightarrow> total_samples p \<le> m)
     \<and> samples_needed_this_gpu p = total_samples p div 3
     \<and> samples_needed_this_gpu p * 3 = total_samples p
     \<and> 2 dvd samples_needed_this_gpu p
     \<and> iterations p = samples_needed_this_gpu p div 2
     \<and> iterations p * 2 = samples_needed_this_gpu p"
    using plan_exact_in_double_range[of 7 2 3] by simp
  then obtain p where "plan 7 2 3 = Inr p" "(2 * 3) dvd total_samples p" "7 \<le> total_samples p"
     "\<forall>m. (2 * 3) dvd m \<and> 7 \<le> m \<longrightarrow> total_samples p \<le> m"
     "samples_needed_this_gpu p * 3 = total_samples p"
     "2 dvd samples_needed_this_gpu p"
     "iterations p * 2 = samples_needed_this_gpu p"
    by blast
  then show ?thesis by (intro exI[of _ p]) simp
qed

text \<open>
  C2.  The plan is to round the requested count up to a multiple of \<open>n * world_size\<close>
  (the comment of line 164:
  \<^verbatim>\<open>we'll sample a bit more than we need and then discard the extra samples\<close>),
  so \<open>total_samples\<close> should be the smallest such multiple that is at least the requested
  count.  Line 165 takes the ceiling of a float quotient and misses it beyond the precision
  of a double: for \<open>2 ^ 53 + 1\<close> requested samples with \<open>n = 1\<close> and \<open>world_size = 1\<close> the
  quotient rounds to \<open>2 ^ 53\<close>, the plan succeeds, and \<open>total_samples\<close> is \<open>2 ^ 53\<close>, below
  the requested count, where the exact ceiling gives \<open>2 ^ 53 + 1\<close>.
\<close>

theorem plan_total_below_request:
  "plan 9007199254740993 1 1 =
     Inr \<lparr>total_samples = 9007199254740992, samples_needed_this_gpu = 9007199254740992,
          iterations = 9007199254740992\<rparr>
   \<and> total_samples \<lparr>total_samples = 9007199254740992,
          samples_needed_this_gpu = 9007199254740992, iterations = 9007199254740992\<rparr>
       < 9007199254740993
   \<and> ceil_div_exact 9007199254740993 (1 * 1) * (1 * 1) = 9007199254740993"
  by code_simp

text \<open>
  C9.  For \<open>n \<ge> 1\<close>, \<open>world_size \<ge> 1\<close> and a requested count \<open>\<ge> 1\<close>, the two
  divisibility assertions after batch planning cannot fail: \<open>total_samples\<close> is an integer
  multiple of \<open>n * world_size\<close>, so the plan never ends in an \<open>AssertionError\<close>, and with the
  ceiling taken in exact integer arithmetic both assertions pass.
\<close>

theorem divisibility_assertions_unreachable:
  assumes "1 \<le> n" "1 \<le> ws" "1 \<le> requested"
  shows "(\<forall>msg. plan requested n ws \<noteq> Inl (AssertionError msg))
    \<and> split_samples (ceil_div_exact requested (n * ws) * (n * ws)) n ws
        = Inr \<lparr>total_samples = ceil_div_exact requested (n * ws) * (n * ws),
               samples_needed_this_gpu = ceil_div_exact requested (n * ws) * n,
               iterations = ceil_div_exact requested (n * ws)\<rparr>"
proof -
  have nz: "n \<noteq> 0" "ws \<noteq> 0" using assms by simp_all
  have "plan requested n ws \<noteq> Inl (AssertionError msg)" for msg
    using plan_cases[of requested n ws] by (auto simp: split_samples_multiple[OF nz])
  then show ?thesis using split_samples_multiple[OF nz] by blast
qed

theorem divisibility_assertions_unreachable_witness:
  "(\<forall>msg. plan 100 10 4 \<noteq> Inl (AssertionError msg))
    \<and> split_samples (ceil_div_exact 100 (10 * 4) * (10 * 4)) 10 4
        = Inr \<lparr>total_samples = ceil_div_exact 100 (10 * 4) * (10 * 4),
               samples_needed_this_gpu = ceil_div_exact 100 (10 * 4) * 10,
               iterations = ceil_div_exact 100 (10 * 4)\<rparr>"
  using divisibility_assertions_unreachable[of 10 4 100] by simp

subsection \<open>Per-rank seed\<close>

text \<open>
  C10.  The per-rank seed \<open>(global_seed + rank) * world_size // 2\<close> is not injective in
  the global seed: with \<open>world_size = 1\<close> and rank \<open>0\<close>, the global seeds \<open>2 * k\<close> and
  \<open>2 * k + 1\<close> are distinct and both derive the seed \<open>k\<close>.
\<close>

theorem derive_seed_not_injective:
  "derive_seed (2 * k) 0 1 = k \<and> derive_seed (2 * k + 1) 0 1 = k \<and> 2 * k \<noteq> 2 * k + 1
   \<and> \<not> inj (\<lambda>global_seed. derive_seed global_seed 0 1)"
proof -
  have a: "derive_seed (2 * k) 0 1 = k" for k by (simp add: derive_seed_def)
  have b: "derive_seed (2 * k + 1) 0 1 = k" for k by (simp add: derive_seed_def)
  have "\<not> inj (\<lambda>global_seed. derive_seed global_seed 0 1)"
  proof
    assume "inj (\<lambda>global_seed. derive_seed global_seed 0 1)"
    moreover have "derive_seed (2 * 0) 0 1 = derive_seed (2 * 0 + 1) 0 1" by (simp only: a b)
    ultimately have "(2 * 0 :: int) = 2 * 0 + 1" by (rule injD)
    then show False by simp
  qed
  with a b show ?thesis by simp
qed

subsection \<open>Programs: sequencing, the call log and the file system\<close>

lemma thn_Inl: "m w = (Inl st, w1) \<Longrightarrow> thn m f w = (Inl st, w1)"
  by (simp add: thn_def)

lemma thn_Inr: "m w = (Inr x, w1) \<Longrightarrow> thn m f w = f x w1"
  by (simp add: thn_def)

lemma thn_cases:
  assumes "thn m f w = (r, w')"
  obtains (stop) st where "m w = (Inl st, w')" "r = Inl st"
    | (go) x w1 where "m w = (Inr x, w1)" "f x w1 = (r, w')"
  using assms by (auto simp: thn_def split: prod.splits sum.splits)

lemma ret_eq: "ret x w = (r, w') \<longleftrightarrow> r = Inr x \<and> w' = w"
  by (auto simp: ret_def)

lemma throw_eq: "throw err w = (r, w') \<longleftrightarrow> r = Inl (Raised err) \<and> w' = w"
  by (auto simp: throw_def)

lemma lift_eq:
  "lift v w = (r, w') \<longleftrightarrow> w' = w \<and> (case v of Inl err \<Rightarrow> r = Inl (Raised err) | Inr x \<Rightarrow> r = Inr x)"
  by (auto simp: lift_def ret_def throw_def split: sum.splits)

lemma invoke_eq:
  "invoke e c w = (r, w') \<longleftrightarrow>
     w' = w\<lparr>calls := calls w @ [c]\<rparr>
     \<and> (case fails e (length (calls w)) c of Some st \<Rightarrow> r = Inl st | None \<Rightarrow> r = Inr ())"
  by (auto simp: invoke_def Let_def split: option.splits)

lemma logsD:
  "logs P m \<Longrightarrow> m w = (r, w') \<Longrightarrow> \<exists>cs. calls w' = calls w @ cs \<and> list_all P cs"
  by (auto simp: logs_def)

lemma logs_new_calls: "logs P m \<Longrightarrow> m w = (r, w') \<Longrightarrow> list_all P (new_calls w w')"
  by (auto simp: new_calls_def dest!: logsD)

lemma logs_mono: "logs P m \<Longrightarrow> (\<And>c. P c \<Longrightarrow> Q c) \<Longrightarrow> logs Q m"
  unfolding logs_def list_all_iff by blast

lemma logs_ret [intro!, simp]: "logs P (ret x)"
  by (simp add: logs_def ret_eq)

lemma logs_throw [intro!, simp]: "logs P (throw err)"
  by (simp add: logs_def throw_eq)

lemma logs_lift [intro!, simp]: "logs P (lift v)"
  by (simp add: logs_def lift_eq)

lemma logs_invoke [intro!]: "P c \<Longrightarrow> logs P (invoke e c)"
  by (simp add: logs_def invoke_eq)

lemma logs_thn [intro!]:
  assumes "logs P m" "\<And>x. logs P (f x)"
  shows "logs P (thn m f)"
  unfolding logs_def
proof (intro allI impI)
  fix w r w'
  assume "thn m f w = (r, w')"
  then show "\<exists>cs. calls w' = calls w @ cs \<and> list_all P cs"
  proof (cases rule: thn_cases)
    case (stop st)
    then show ?thesis using assms(1) by (auto dest: logsD)
  next
    case (go x w1)
    from logsD[OF assms(1) go(1)] obtain cs1 where 1: "calls w1 = calls w @ cs1" "list_all P cs1"
      by blast
    from logsD[OF assms(2) go(2)] obtain cs2 where 2: "calls w' = calls w1 @ cs2" "list_all P cs2"
      by blast
    from 1 2 show ?thesis by (intro exI[of _ "cs1 @ cs2"]) simp
  qed
qed

lemma logs_if [intro!]: "logs P m \<Longrightarrow> logs P m' \<Longrightarrow> logs P (if b then m else m')"
  by simp

lemma logs_case_prod [intro!]: "(\<And>x y. logs P (f x y)) \<Longrightarrow> logs P (case_prod f p)"
  by (cases p) simp

lemmas logs_intros =
  logs_thn logs_invoke logs_if logs_case_prod logs_lift logs_ret logs_throw

lemma keeps_filesD: "keeps_files m \<Longrightarrow> m w = (r, w') \<Longrightarrow> files w' = files w"
  by (auto simp: keeps_files_def)

lemma keeps_ret [intro!, simp]: "keeps_files (ret x)"
  by (simp add: keeps_files_def ret_eq)

lemma keeps_throw [intro!, simp]: "keeps_files (throw err)"
  by (simp add: keeps_files_def throw_eq)

lemma keeps_lift [intro!, simp]: "keeps_files (lift v)"
  by (simp add: keeps_files_def lift_eq)

lemma keeps_invoke [intro!, simp]: "keeps_files (invoke e c)"
  by (simp add: keeps_files_def invoke_eq)

lemma keeps_thn [intro!]:
  assumes "keeps_files m" "\<And>x. keeps_files (f x)"
  shows "keeps_files (thn m f)"
  unfolding keeps_files_def
proof (intro allI impI)
  fix w r w'
  assume "thn m f w = (r, w')"
  then show "files w' = files w"
  proof (cases rule: thn_cases)
    case (stop st)
    then show ?thesis using assms(1) by (auto dest: keeps_filesD)
  next
    case (go x w1)
    from keeps_filesD[OF assms(1) go(1)] keeps_filesD[OF assms(2) go(2)]
    show ?thesis by simp
  qed
qed

lemma keeps_if [intro!]: "keeps_files m \<Longrightarrow> keeps_files m' \<Longrightarrow> keeps_files (if b then m else m')"
  by simp

lemma keeps_case_prod [intro!]: "(\<And>x y. keeps_files (f x y)) \<Longrightarrow> keeps_files (case_prod f p)"
  by (cases p) simp

lemmas keeps_intros =
  keeps_thn keeps_invoke keeps_if keeps_case_prod keeps_lift keeps_ret keeps_throw

lemma thn_throw [simp]: "thn (throw err) f = throw err"
  by (rule ext) (simp add: thn_def throw_def)

lemma thn_ret [simp]: "thn (ret x) f = f x"
  by (rule ext) (simp add: thn_def ret_def)

lemma lift_Inl [simp]: "lift (Inl err) = throw err"
  by (simp add: lift_def)

lemma lift_Inr [simp]: "lift (Inr x) = ret x"
  by (simp add: lift_def)

lemma new_calls_append: "calls w' = calls w @ cs \<Longrightarrow> new_calls w w' = cs"
  by (simp add: new_calls_def)

subsection \<open>The phases of the driver\<close>

text \<open>Each phase makes only the calls written in it.\<close>

lemma logs_init_worker:
  assumes "P SetGradEnabled" "P InitProcessGroup" "\<And>s. P (ManualSeed s)" "\<And>d. P (SetDevice d)"
  shows "logs P (init_worker a e)"
  unfolding init_worker_def by (intro logs_intros; simp add: assms)

lemma logs_load_models:
  assumes "\<And>p. P (LoadConfig p)" "P LoadEncoders" "\<And>x y. P (BuildModel x y)"
    "\<And>p. P (LoadCheckpoint p)" "P LoadModelState" "\<And>v. P (BuildVae v)"
    "\<And>p. P (LoadVaeCheckpoint p)" "\<And>p. P (LoadLatentStats p)" "P LoadVaeState" "P EmptyCache"
  shows "logs P (load_models a e)"
  unfolding load_models_def Let_def by (intro logs_intros; simp add: assms)

lemma logs_prepare: "logs (\<lambda>c. \<not> is_sampling_call c \<and> c \<noteq> Barrier) (prepare a e)"
  unfolding prepare_def by (intro logs_thn logs_init_worker logs_load_models; simp)

lemma keeps_init_worker: "keeps_files (init_worker a e)"
  unfolding init_worker_def by (intro keeps_intros)

lemma keeps_load_models: "keeps_files (load_models a e)"
  unfolding load_models_def Let_def by (intro keeps_intros)

lemma keeps_prepare: "keeps_files (prepare a e)"
  unfolding prepare_def by (intro keeps_thn keeps_init_worker keeps_load_models)

lemma float_lt_one_not_ge: "float_lt_one x \<Longrightarrow> \<not> float_ge_one x"
  by (cases x) (simp_all add: float_lt_one_def float_ge_one_def)

lemma startup_rejects_cfg:
  assumes "\<not> float_ge_one (cfg_scale a)" "startup a e w = (rs, w1)"
  shows "(\<exists>st. rs = Inl st \<and> prepare a e w = (Inl st, w1))
       \<or> (rs = Inl (Raised (AssertionError ''cfg_scale should be >= 1.0''))
            \<and> prepare a e w = (Inr (), w1))"
  using assms(2) unfolding startup_def
proof (cases rule: thn_cases)
  case (stop st)
  then show ?thesis by simp
next
  case (go x w2)
  then show ?thesis using assms(1) by (simp add: py_assert_def throw_eq)
qed


subsection \<open>Guidance scale\<close>

text \<open>
  C7.  Every run invoked with a guidance scale \<open>cfg_scale < 1.0\<close> is rejected before any
  sampling begins: the run never returns normally, it makes no call of the sampling loop
  (no noise is drawn, no sampler is invoked, no image is saved) and writes no file; and
  once model loading has completed, it is the assertion of line 142 that aborts it.
\<close>

theorem cfg_scale_below_one_rejected:
  assumes "float_lt_one (cfg_scale a)" and "main a e w = (r, w')"
  shows "r \<noteq> Inr ()
    \<and> list_all (\<lambda>c. \<not> is_sampling_call c) (new_calls w w')
    \<and> files w' = files w
    \<and> (\<forall>w1. prepare a e w = (Inr (), w1) \<longrightarrow>
          r = Inl (Raised (AssertionError ''cfg_scale should be >= 1.0'')) \<and> w' = w1)"
proof -
  have ng: "\<not> float_ge_one (cfg_scale a)" using assms(1) by (rule float_lt_one_not_ge)
  from assms(2) obtain st where st: "startup a e w = (Inl st, w')" "r = Inl st"
    unfolding main_def
  proof (cases rule: thn_cases)
    case (stop st)
    then show ?thesis using that by blast
  next
    case (go skip w1)
    with startup_rejects_cfg[OF ng go(1)] show ?thesis by auto
  qed
  from startup_rejects_cfg[OF ng st(1)]
  obtain rp where rp: "prepare a e w = (rp, w')"
    and rr: "rp = Inr () \<longrightarrow> st = Raised (AssertionError ''cfg_scale should be >= 1.0'')"
    by auto
  have "list_all (\<lambda>c. \<not> is_sampling_call c \<and> c \<noteq> Barrier) (new_calls w w')"
    using logs_new_calls[OF logs_prepare rp] .
  then have 1: "list_all (\<lambda>c. \<not> is_sampling_call c) (new_calls w w')"
    by (simp add: list_all_iff)
  have 2: "files w' = files w" using keeps_filesD[OF keeps_prepare rp] .
  show ?thesis using st(2) 1 2 rp rr by auto
qed

theorem cfg_scale_below_one_rejected_witness:
  "float_lt_one (cfg_scale low_cfg_args)
   \<and> fst (main low_cfg_args demo_env empty_world)
       = Inl (Raised (AssertionError ''cfg_scale should be >= 1.0''))
   \<and> list_all (\<lambda>c. \<not> is_sampling_call c)
       (new_calls empty_world (snd (main low_cfg_args demo_env empty_world)))
   \<and> files (snd (main low_cfg_args demo_env empty_world)) = files empty_world"
proof -
  have h: "float_lt_one (cfg_scale low_cfg_args)"
    by (simp add: low_cfg_args_def float_lt_one_def)
  have "fst (prepare low_cfg_args demo_env empty_world) = Inr ()" by code_simp
  then have p: "prepare low_cfg_args demo_env empty_world
      = (Inr (), snd (prepare low_cfg_args demo_env empty_world))"
    by (metis prod.collapse)
  have m: "main low_cfg_args demo_env empty_world
      = (fst (main low_cfg_args demo_env empty_world), snd (main low_cfg_args demo_env empty_world))"
    by simp
  from cfg_scale_below_one_rejected[OF h m] p h show ?thesis by blast
qed


subsection \<open>The skip check\<close>

lemma skip_check_rank0_found:
  assumes "skip_check a e w = (rs, w1)" "rank e = 0"
    and "files w (npz_path (sample_folder_dir a e)) \<noteq> None"
  shows "files w1 = files w"
    and "rs = Inr True \<or> (\<exists>st. rs = Inl st)"
    and "rs = Inr True \<Longrightarrow>
           new_calls w w1 = [PathExists (npz_path (sample_folder_dir a e)), Broadcast]"
    and "list_all (\<lambda>c. c = PathExists (npz_path (sample_folder_dir a e)) \<or> c = Broadcast)
           (new_calls w w1)"
  using assms
  by (auto simp: skip_check_def path_exists_def thn_def invoke_def ret_def Let_def new_calls_def
      split: prod.splits sum.splits option.splits if_splits)

lemma skip_check_other_rank:
  assumes "skip_check a e w = (rs, w1)" "rank e \<noteq> 0"
  shows "files w1 = files w"
    and "new_calls w w1 = [Broadcast]"
    and "rs = Inr (skip_received e) \<or> (\<exists>st. rs = Inl st)"
  using assms
  by (auto simp: skip_check_def thn_def invoke_def ret_def Let_def new_calls_def
      split: prod.splits sum.splits option.splits if_splits)

lemma skip_check_rank0:
  assumes "skip_check a e w = (rs, w1)" "rank e = 0"
  shows "path_checks (new_calls w w1) = [npz_path (sample_folder_dir a e)]"
    and "rs = Inr skip \<Longrightarrow> skip = (files w (npz_path (sample_folder_dir a e)) \<noteq> None)"
  using assms
  by (auto simp: skip_check_def path_exists_def makedirs_def thn_def invoke_def ret_def Let_def
      new_calls_def split: prod.splits sum.splits option.splits if_splits node.splits)

lemma logs_skip_check:
  assumes "\<And>p. P (PathExists p)" "\<And>p. P (MakeDirs p)" "P Broadcast"
  shows "logs P (skip_check a e)"
proof -
  have 1: "logs P (\<lambda>w. (Inr (files w p \<noteq> None), w))" for p
    by (auto simp: logs_def)
  have 2: "logs P (\<lambda>w. case files w p of
         None \<Rightarrow> (Inr (), w\<lparr>files := (files w)(p \<mapsto> Directory)\<rparr>)
       | Some Directory \<Rightarrow> (Inr (), w)
       | Some _ \<Rightarrow> (Inl (Raised (FileExistsError p)), w))" for p
    by (auto simp: logs_def split: option.splits node.splits)
  show ?thesis
    unfolding skip_check_def path_exists_def makedirs_def
    by (intro logs_intros 1 2; simp add: assms)
qed

lemma logs_startup:
  "logs (\<lambda>c. \<not> is_sampling_call c \<and> c \<noteq> Barrier) (startup a e)"
  unfolding startup_def by (intro logs_thn logs_prepare logs_lift logs_skip_check; simp)

lemma startup_cases:
  assumes "startup a e w = (rs, w1)"
  obtains (early) st where "rs = Inl st" "files w1 = files w"
  | (checked) w2 where "prepare a e w = (Inr (), w2)" "files w2 = files w"
      "float_ge_one (cfg_scale a)" "skip_check a e w2 = (rs, w1)"
  using assms unfolding startup_def
proof (cases rule: thn_cases)
  case (stop st)
  then show ?thesis using early keeps_filesD[OF keeps_prepare] by blast
next
  case (go x w2)
  have f2: "files w2 = files w" using keeps_filesD[OF keeps_prepare go(1)] .
  from go(2) show ?thesis
  proof (cases rule: thn_cases)
    case (stop st)
    then show ?thesis using early f2 by (auto simp: lift_eq split: sum.splits)
  next
    case (go y w3)
    then have "w3 = w2" "float_ge_one (cfg_scale a)"
      by (auto simp: lift_eq py_assert_def split: sum.splits if_splits)
    with go \<open>prepare a e w = (Inr x, w2)\<close> f2 show ?thesis using checked by simp
  qed
qed

lemma skip_check_extends:
  assumes "skip_check a e w = (rs, w1)"
  shows "calls w1 = calls w @ new_calls w w1"
proof -
  have "logs (\<lambda>c. True) (skip_check a e)" by (intro logs_skip_check; simp)
  from logsD[OF this assms] show ?thesis by (auto simp: new_calls_def)
qed

lemma startup_skip:
  assumes "files w (npz_path (sample_folder_dir a e)) \<noteq> None"
    and "rank e \<noteq> 0 \<longrightarrow> skip_received e"
    and "startup a e w = (rs, w1)"
  shows "files w1 = files w"
    and "rs = Inr True \<or> (\<exists>st. rs = Inl st)"
    and "rs = Inr True \<Longrightarrow> last (calls w1) = Broadcast"
  using assms(3)
proof (atomize (full), cases rule: startup_cases)
  case (early st)
  then show "files w1 = files w \<and> (rs = Inr True \<or> (\<exists>st. rs = Inl st))
      \<and> (rs = Inr True \<longrightarrow> last (calls w1) = Broadcast)" by simp
next
  case (checked w2)
  note ext = skip_check_extends[OF checked(4)]
  show "files w1 = files w \<and> (rs = Inr True \<or> (\<exists>st. rs = Inl st))
      \<and> (rs = Inr True \<longrightarrow> last (calls w1) = Broadcast)"
  proof (cases "rank e = 0")
    case True
    have f: "files w2 (npz_path (sample_folder_dir a e)) \<noteq> None"
      using assms(1) checked(2) by simp
    from skip_check_rank0_found[OF checked(4) True f] ext checked(2)
    show ?thesis by auto
  next
    case False
    from skip_check_other_rank[OF checked(4) False] ext checked(2) assms(2) False
    show ?thesis by auto
  qed
qed


text \<open>
  C4.  If the archive file \<^verbatim>\<open>sample_folder_dir + ".npz"\<close> exists when the run starts
  (rank \<open>0\<close> sees it; the other ranks receive the flag rank \<open>0\<close> broadcasts), a worker
  writes no file, saves no image and executes no barrier.  Either it has already failed
  during start-up, or the skip flag is set, the broadcast is its last call of the
  start-up, and \<^verbatim>\<open>destroy_process_group\<close> is called next and is the last call of the
  run, which then returns.
\<close>

theorem skip_when_archive_exists:
  assumes "files w (npz_path (sample_folder_dir a e)) \<noteq> None"
    and "rank e \<noteq> 0 \<longrightarrow> skip_received e"
    and "startup a e w = (rs, w1)"
    and "main a e w = (r, w')"
  shows "files w' = files w
    \<and> list_all (\<lambda>c. \<not> is_sampling_call c \<and> c \<noteq> Barrier) (new_calls w w')
    \<and> ((\<exists>st. rs = Inl st \<and> r = Inl st \<and> w' = w1)
        \<or> (rs = Inr True \<and> last (calls w1) = Broadcast
            \<and> calls w' = calls w1 @ [DestroyProcessGroup]
            \<and> (r = Inr () \<longleftrightarrow> fails e (length (calls w1)) DestroyProcessGroup = None)))"
proof -
  note sk = startup_skip[OF assms(1,2,3)]
  from logsD[OF logs_startup assms(3)] obtain cs where
    cs: "calls w1 = calls w @ cs" "list_all (\<lambda>c. \<not> is_sampling_call c \<and> c \<noteq> Barrier) cs"
    by blast
  from sk(2) show ?thesis
  proof
    assume t: "rs = Inr True"
    with assms(3,4) have "invoke e DestroyProcessGroup w1 = (r, w')"
      by (simp add: main_def thn_Inr)
    then have i: "w' = w1\<lparr>calls := calls w1 @ [DestroyProcessGroup]\<rparr>"
      "r = Inr () \<longleftrightarrow> fails e (length (calls w1)) DestroyProcessGroup = None"
      by (auto simp: invoke_eq split: option.splits)
    have "new_calls w w' = cs @ [DestroyProcessGroup]"
      using i(1) cs(1) by (simp add: new_calls_def)
    with cs(2) i sk t show ?thesis by simp
  next
    assume "\<exists>st. rs = Inl st"
    then obtain st where st: "rs = Inl st" by blast
    with assms(3,4) have "r = Inl st" "w' = w1" by (simp_all add: main_def thn_Inl)
    with st sk(1) cs show ?thesis by (simp add: new_calls_def)
  qed
qed

theorem skip_when_archive_exists_witness:
  "files archived_world (npz_path (sample_folder_dir demo_args demo_env)) \<noteq> None
   \<and> fst (main demo_args demo_env archived_world) = Inr ()
   \<and> files (snd (main demo_args demo_env archived_world)) = files archived_world
   \<and> list_all (\<lambda>c. \<not> is_sampling_call c \<and> c \<noteq> Barrier)
        (new_calls archived_world (snd (main demo_args demo_env archived_world)))
   \<and> last (calls (snd (main demo_args demo_env archived_world))) = DestroyProcessGroup"
proof -
  have h1: "files archived_world (npz_path (sample_folder_dir demo_args demo_env)) \<noteq> None"
    by code_simp
  have h2: "rank demo_env \<noteq> 0 \<longrightarrow> skip_received demo_env" by (simp add: demo_env_def)
  have h3: "startup demo_args demo_env archived_world
      = (fst (startup demo_args demo_env archived_world),
         snd (startup demo_args demo_env archived_world))" by simp
  have h4: "main demo_args demo_env archived_world
      = (fst (main demo_args demo_env archived_world),
         snd (main demo_args demo_env archived_world))" by simp
  have ok: "fst (startup demo_args demo_env archived_world) = Inr True" by code_simp
  have nf: "fails demo_env k c = None" for k c by (simp add: demo_env_def)
  from skip_when_archive_exists[OF h1 h2 h3 h4] ok nf h1 show ?thesis by auto
qed


subsection \<open>The calls of the sampling loop and of the archive builder\<close>

lemma thn_assoc: "thn (thn m f) g = thn m (\<lambda>x. thn (f x) g)"
  by (rule ext) (auto simp: thn_def split: prod.splits sum.splits)

lemma logs_path_exists: "P (PathExists p) \<Longrightarrow> logs P (path_exists e p)"
  by (auto simp: logs_def path_exists_def thn_def invoke_def Let_def
      split: option.splits prod.splits sum.splits)

lemma logs_makedirs: "P (MakeDirs p) \<Longrightarrow> logs P (makedirs e p)"
  by (auto simp: logs_def makedirs_def thn_def invoke_def Let_def
      split: option.splits prod.splits sum.splits node.splits)

lemma logs_save_image: "P (SaveImage p) \<Longrightarrow> logs P (save_image e p img)"
  by (auto simp: logs_def save_image_def thn_def invoke_def Let_def
      split: option.splits prod.splits sum.splits)

lemma logs_open_image: "P (OpenImage p) \<Longrightarrow> logs P (open_image e p)"
  by (auto simp: logs_def open_image_def thn_def invoke_def Let_def
      split: option.splits prod.splits sum.splits node.splits)

lemma logs_savez: "P (Savez p) \<Longrightarrow> logs P (savez e p arr)"
  by (auto simp: logs_def savez_def thn_def invoke_def Let_def
      split: option.splits prod.splits sum.splits)

lemma logs_sync_peers: "logs P (sync_peers e)"
  by (simp add: logs_def sync_peers_def)

lemma logs_save_images:
  assumes "\<And>p. P (SaveImage p)"
  shows "logs P (save_images e folder k xs)"
  by (induction xs) (auto intro!: logs_thn logs_save_image assms)

lemma logs_read_samples:
  assumes "\<And>p. P (OpenImage p)"
  shows "logs P (read_samples e dir xs)"
  by (induction xs) (auto intro!: logs_thn logs_open_image assms)

lemma logs_sample_batch:
  assumes "\<And>n. P (Randn n)" "\<And>n. P (Randint n)" "P EulerMaruyamaSampler" "P EulerSampler"
    "P VaeDecode" "\<And>p. P (SaveImage p)"
  shows "logs P (sample_batch a e k tot)"
  unfolding sample_batch_def Let_def
  by (intro logs_intros logs_save_images; simp add: assms)

lemma logs_sampling_loop:
  assumes "\<And>k tot. logs P (sample_batch a e k tot)"
  shows "logs P (sampling_loop a e ks tot)"
  by (induction ks arbitrary: tot) (auto intro!: logs_thn assms)

lemma logs_sample_all:
  assumes "\<And>k tot. logs P (sample_batch a e k tot)" "P ReportParameters"
  shows "logs P (sample_all a e)"
  unfolding sample_all_def
  by (intro logs_intros logs_sampling_loop; simp add: assms)

lemma logs_create_npz:
  assumes "\<And>p. P (OpenImage p)" "\<And>p. P (Savez p)"
  shows "logs P (create_npz_from_sample_folder e dir num)"
  unfolding create_npz_from_sample_folder_def
  by (intro logs_intros logs_read_samples logs_savez; simp add: assms)

lemma logs_finish:
  assumes "\<And>p. P (OpenImage p)" "\<And>p. P (Savez p)" "P Barrier" "P DestroyProcessGroup"
  shows "logs P (finish a e)"
  unfolding finish_def
  by (intro logs_intros logs_sync_peers logs_create_npz; simp add: assms)

text \<open>What follows the start-up of a run that is not skipped.\<close>

lemma logs_after_startup:
  assumes "\<And>k tot. logs P (sample_batch a e k tot)" "P ReportParameters"
    "\<And>p. P (OpenImage p)" "\<And>p. P (Savez p)" "P Barrier" "P DestroyProcessGroup"
  shows "logs P (\<lambda>w. if skip then invoke e DestroyProcessGroup w
           else thn (invoke e Barrier) (\<lambda>_. thn (sample_all a e) (\<lambda>_. finish a e)) w)"
proof (cases skip)
  case True
  then show ?thesis using logs_invoke[of P DestroyProcessGroup e] assms by (simp add: logs_def)
next
  case False
  have "logs P (thn (invoke e Barrier) (\<lambda>_. thn (sample_all a e) (\<lambda>_. finish a e)))"
    by (intro logs_intros logs_sample_all logs_finish; simp add: assms)
  with False show ?thesis by (simp add: logs_def)
qed

lemma thn_split:
  assumes "thn m f w = (r, w')" "\<And>x. logs P (f x)"
  obtains r1 w1 cs where "m w = (r1, w1)" "calls w' = calls w1 @ cs" "list_all P cs"
    "(\<exists>st. r1 = Inl st \<and> r = Inl st \<and> w' = w1) \<or> (\<exists>x. r1 = Inr x \<and> f x w1 = (r, w'))"
  using assms(1)
proof (cases rule: thn_cases)
  case (stop st)
  then show ?thesis using that[of "Inl st" w' "[]"] by simp
next
  case (go x w1)
  from logsD[OF assms(2) go(2)] obtain cs where "calls w' = calls w1 @ cs" "list_all P cs"
    by blast
  with go show ?thesis using that[of "Inr x" w1 cs] by simp
qed

lemma main_eq:
  "main a e = thn (startup a e) (\<lambda>skip w. if skip then invoke e DestroyProcessGroup w
           else thn (invoke e Barrier) (\<lambda>_. thn (sample_all a e) (\<lambda>_. finish a e)) w)"
  unfolding main_def by (rule arg_cong[where f = "thn (startup a e)"]) (auto intro!: ext)

lemma main_split:
  assumes "main a e w = (r, w')"
    and "\<And>k tot. logs P (sample_batch a e k tot)" "P ReportParameters"
    "\<And>p. P (OpenImage p)" "\<And>p. P (Savez p)" "P Barrier" "P DestroyProcessGroup"
  obtains rs w1 cs where "startup a e w = (rs, w1)" "calls w' = calls w1 @ cs" "list_all P cs"
  using assms(1) unfolding main_eq
  by (rule thn_split[where P = P]) (auto intro!: logs_after_startup assms)


subsection \<open>Heun with SDE sampling\<close>

lemma sample_batch_heun_sde_eq:
  assumes "mode a = ''sde''" "heun a"
  shows "sample_batch a e k tot =
     thn (invoke e (Randn (pproc_batch_size a))) (\<lambda>_.
     thn (if pproc_batch_size a < 0 then throw (ExternalError ''randn'') else ret ()) (\<lambda>_.
     thn (invoke e (Randint (pproc_batch_size a))) (\<lambda>_.
     throw (AssertionError heun_message))))"
  using assms by (simp add: sample_batch_def Let_def py_assert_def)

lemma sample_batch_heun_sde:
  assumes "mode a = ''sde''" "heun a" "sample_batch a e k tot w = (r, w')"
  shows "r \<noteq> Inr ()" and "files w' = files w"
    and "fails e (length (calls w)) (Randn (pproc_batch_size a)) = None
         \<and> 0 \<le> pproc_batch_size a
         \<and> fails e (Suc (length (calls w))) (Randint (pproc_batch_size a)) = None
       \<longrightarrow> r = Inl (Raised (AssertionError heun_message))
           \<and> new_calls w w' = [Randn (pproc_batch_size a), Randint (pproc_batch_size a)]"
  using assms(3) unfolding sample_batch_heun_sde_eq[OF assms(1,2)]
  by (auto simp: thn_def invoke_def throw_def ret_def Let_def new_calls_def
      split: prod.splits sum.splits option.splits if_splits)

lemma logs_sample_batch_heun_sde:
  assumes "mode a = ''sde''" "heun a" "\<And>n. P (Randn n)" "\<And>n. P (Randint n)"
  shows "logs P (sample_batch a e k tot)"
  unfolding sample_batch_heun_sde_eq[OF assms(1,2)]
  by (intro logs_intros; simp add: assms)

lemma sampling_loop_heun_sde:
  assumes "mode a = ''sde''" "heun a" "sampling_loop a e ks tot w = (Inr (), w')"
  shows "ks = []"
proof (cases ks)
  case Nil
  then show ?thesis .
next
  case (Cons k ks')
  from assms(3)[unfolded Cons sampling_loop.simps]
  show ?thesis
  proof (cases rule: thn_cases)
    case (stop st)
    then show ?thesis by simp
  next
    case (go x w1)
    with sample_batch_heun_sde(1)[OF assms(1,2) go(1)] show ?thesis by simp
  qed
qed

lemma sample_all_heun_sde:
  assumes "mode a = ''sde''" "heun a" "sample_all a e w = (Inr (), w')"
  shows "list_all (\<lambda>c. c = ReportParameters) (new_calls w w')"
  using assms(3) unfolding sample_all_def
proof (cases rule: thn_cases)
  case (go tot w1)
  then have w1: "w1 = w" by (auto simp: lift_eq split: sum.splits)
  from go(2) show ?thesis
  proof (cases rule: thn_cases)
    case (go x w2)
    have l: "logs (\<lambda>c. c = ReportParameters)
        (if rank e = 0 then invoke e ReportParameters else ret ())"
      by (intro logs_intros; simp)
    from logsD[OF l go(1)] obtain cs where cs: "calls w2 = calls w1 @ cs"
      "list_all (\<lambda>c. c = ReportParameters) cs" by blast
    from go(2) show ?thesis
    proof (cases rule: thn_cases)
      case (go p w3)
      then have w3: "w3 = w2" by (auto simp: lift_eq split: sum.splits)
      from sampling_loop_heun_sde[OF assms(1,2) go(2)] go(2) have "w' = w3"
        by (simp add: ret_eq)
      with w3 w1 cs show ?thesis by (simp add: new_calls_def)
    qed simp
  qed simp
qed simp

lemma list_all_mono': "list_all P xs \<Longrightarrow> (\<And>x. P x \<Longrightarrow> Q x) \<Longrightarrow> list_all Q xs"
  by (simp add: list_all_iff)

text \<open>
  C8 (as amended).  In a run invoked with \<^verbatim>\<open>mode=sde\<close> and the Heun toggle enabled no
  sampler is ever invoked and no image is saved.  The combination is rejected inside the
  sampling loop: an iteration never completes and writes nothing, and once its noise and
  label draws have returned it ends in the \<open>AssertionError\<close> of line 182; a run that
  returns normally (a skipped run, or one without iterations) has made no call of the
  sampling loop at all.
\<close>

theorem heun_with_sde_never_samples:
  assumes "mode a = ''sde''" "heun a"
  shows "(main a e w = (r, w') \<longrightarrow>
            list_all (\<lambda>c. \<not> is_sampler_call c \<and> \<not> is_save_call c) (new_calls w w')
          \<and> (r = Inr () \<longrightarrow> list_all (\<lambda>c. \<not> is_sampling_call c) (new_calls w w')))
       \<and> (sample_batch a e k tot w0 = (r0, w0') \<longrightarrow>
            r0 \<noteq> Inr () \<and> files w0' = files w0
          \<and> (fails e (length (calls w0)) (Randn (pproc_batch_size a)) = None
               \<and> 0 \<le> pproc_batch_size a
               \<and> fails e (Suc (length (calls w0))) (Randint (pproc_batch_size a)) = None
             \<longrightarrow> r0 = Inl (Raised (AssertionError heun_message))
                 \<and> new_calls w0 w0' = [Randn (pproc_batch_size a), Randint (pproc_batch_size a)]))"
proof (intro conjI impI)
  assume m: "main a e w = (r, w')"
  let ?P = "\<lambda>c. \<not> is_sampler_call c \<and> \<not> is_save_call c"
  from m obtain rs w1 cs where s: "startup a e w = (rs, w1)" "calls w' = calls w1 @ cs"
    "list_all ?P cs"
    by (rule main_split[where P = ?P])
       (auto intro!: logs_sample_batch_heun_sde assms)
  from logsD[OF logs_startup s(1)] obtain cs1 where cs1: "calls w1 = calls w @ cs1"
    "list_all (\<lambda>c. \<not> is_sampling_call c \<and> c \<noteq> Barrier) cs1" by blast
  have "list_all ?P cs1"
    by (rule list_all_mono'[OF cs1(2)]) (auto elim: is_sampler_call.elims is_save_call.elims)
  with s cs1 show "list_all ?P (new_calls w w')" by (simp add: new_calls_def)
next
  assume m: "main a e w = (r, w')" and r: "r = Inr ()"
  let ?Q = "\<lambda>c. \<not> is_sampling_call c"
  from m[unfolded main_def] show "list_all ?Q (new_calls w w')"
  proof (cases rule: thn_cases)
    case (stop st)
    with r show ?thesis by simp
  next
    case (go skip w1)
    from logsD[OF logs_startup go(1)] obtain cs1 where cs1: "calls w1 = calls w @ cs1"
      "list_all (\<lambda>c. \<not> is_sampling_call c \<and> c \<noteq> Barrier) cs1" by blast
    have q1: "list_all ?Q cs1" by (rule list_all_mono'[OF cs1(2)]) simp
    show ?thesis
    proof (cases skip)
      case True
      with go(2) have "calls w' = calls w1 @ [DestroyProcessGroup]"
        by (auto simp: invoke_eq)
      with cs1 q1 show ?thesis by (simp add: new_calls_def)
    next
      case False
      with go(2) have "thn (invoke e Barrier) (\<lambda>_. thn (sample_all a e) (\<lambda>_. finish a e)) w1
          = (r, w')" by simp
      then show ?thesis
      proof (cases rule: thn_cases)
        case (stop st)
        with r show ?thesis by simp
      next
        case (go x w2)
        then have w2: "calls w2 = calls w1 @ [Barrier]" by (auto simp: invoke_eq)
        from go(2) show ?thesis
        proof (cases rule: thn_cases)
          case (stop st)
          with r show ?thesis by simp
        next
          case (go y w3)
          with r have sa: "sample_all a e w2 = (Inr (), w3)" by simp
          have "logs (\<lambda>c. True) (sample_all a e)"
            by (intro logs_sample_all logs_sample_batch; simp)
          from logsD[OF this sa] sample_all_heun_sde[OF assms sa]
          obtain cs3 where cs3: "calls w3 = calls w2 @ cs3"
            "list_all (\<lambda>c. c = ReportParameters) cs3" by (auto simp: new_calls_def)
          have q3: "list_all ?Q cs3" by (rule list_all_mono'[OF cs3(2)]) simp
          have "logs ?Q (finish a e)" by (intro logs_finish; simp)
          from logsD[OF this go(2)] obtain cs4 where cs4: "calls w' = calls w3 @ cs4"
            "list_all ?Q cs4" by blast
          from cs1 q1 w2 cs3 q3 cs4 show ?thesis by (simp add: new_calls_def)
        qed
      qed
    qed
  qed
next
  assume "sample_batch a e k tot w0 = (r0, w0')"
  from sample_batch_heun_sde[OF assms this]
  show "r0 \<noteq> Inr ()" "files w0' = files w0" by simp_all
next
  assume b: "sample_batch a e k tot w0 = (r0, w0')"
    and f: "fails e (length (calls w0)) (Randn (pproc_batch_size a)) = None
               \<and> 0 \<le> pproc_batch_size a
               \<and> fails e (Suc (length (calls w0))) (Randint (pproc_batch_size a)) = None"
  from sample_batch_heun_sde(3)[OF assms b] f
  show "r0 = Inl (Raised (AssertionError heun_message))"
    "new_calls w0 w0' = [Randn (pproc_batch_size a), Randint (pproc_batch_size a)]"
    by simp_all
qed

theorem heun_with_sde_never_samples_witness:
  "mode sde_heun_args = ''sde'' \<and> heun sde_heun_args
   \<and> fst (sample_batch sde_heun_args demo_env 0 0 empty_world)
       = Inl (Raised (AssertionError heun_message))
   \<and> calls (snd (sample_batch sde_heun_args demo_env 0 0 empty_world)) = [Randn 1, Randint 1]
   \<and> list_all (\<lambda>c. \<not> is_sampler_call c \<and> \<not> is_save_call c)
       (new_calls empty_world (snd (main sde_heun_args demo_env empty_world)))"
proof -
  have h: "mode sde_heun_args = ''sde''" "heun sde_heun_args"
    by (simp_all add: sde_heun_args_def demo_args_def)
  have n: "pproc_batch_size sde_heun_args = 1" by (simp add: sde_heun_args_def demo_args_def)
  have nf: "fails demo_env j c = None" for j c by (simp add: demo_env_def)
  have c0: "calls empty_world = []" by (simp add: empty_world_def)
  from heun_with_sde_never_samples[OF h, of demo_env empty_world
      "fst (main sde_heun_args demo_env empty_world)"
      "snd (main sde_heun_args demo_env empty_world)" 0 0 empty_world
      "fst (sample_batch sde_heun_args demo_env 0 0 empty_world)"
      "snd (sample_batch sde_heun_args demo_env 0 0 empty_world)"]
  show ?thesis using h n nf c0 by (simp add: new_calls_def)
qed

text \<open>
  C8 as stated fails when the archive already exists: the run is skipped before the loop
  and returns normally, although it was invoked with \<^verbatim>\<open>mode=sde\<close> and Heun enabled.
\<close>

theorem heun_with_sde_skipped_counterexample:
  "mode sde_heun_args = ''sde'' \<and> heun sde_heun_args
   \<and> fst (main sde_heun_args demo_env archived_world) = Inr ()"
  by code_simp



subsection \<open>The seed of a run\<close>

lemma seeds_append: "seeds (xs @ ys) = seeds xs @ seeds ys"
  by (induction xs rule: seeds.induct) simp_all

lemma seeds_none: "list_all (\<lambda>c. seeds [c] = []) cs \<Longrightarrow> seeds cs = []"
  by (induction cs rule: seeds.induct) simp_all

lemma init_worker_seeds:
  assumes "init_worker a e w = (r, w1)"
  shows "calls w1 = calls w @ new_calls w w1"
    and "seeds (new_calls w w1) = []
       \<or> seeds (new_calls w w1) = [derive_seed (global_seed a) (rank e) (world_size e)]"
    and "cuda_available e \<and> device_count e \<noteq> 0
         \<and> fails e (length (calls w)) SetGradEnabled = None
         \<and> fails e (Suc (length (calls w))) InitProcessGroup = None
       \<longrightarrow> seeds (new_calls w w1) = [derive_seed (global_seed a) (rank e) (world_size e)]"
  using assms
  by (auto simp: init_worker_def py_assert_def thn_def invoke_def throw_def ret_def Let_def
      new_calls_def split: prod.splits sum.splits option.splits if_splits)

lemma main_after_init:
  assumes "main a e w = (r, w')"
  obtains ri wi cs where "init_worker a e w = (ri, wi)" "calls w' = calls wi @ cs"
    "seeds cs = []"
proof -
  let ?P = "\<lambda>c. seeds [c] = []"
  have eq: "main a e = thn (init_worker a e) (\<lambda>_.
       thn (load_models a e) (\<lambda>_.
       thn (lift (py_assert (float_ge_one (cfg_scale a)) ''cfg_scale should be >= 1.0'')) (\<lambda>_.
       thn (skip_check a e) (\<lambda>skip w. if skip then invoke e DestroyProcessGroup w
           else thn (invoke e Barrier) (\<lambda>_. thn (sample_all a e) (\<lambda>_. finish a e)) w))))"
    unfolding main_eq startup_def prepare_def by (simp add: thn_assoc)
  have l: "logs ?P (thn (load_models a e) (\<lambda>_.
       thn (lift (py_assert (float_ge_one (cfg_scale a)) ''cfg_scale should be >= 1.0'')) (\<lambda>_.
       thn (skip_check a e) (\<lambda>skip w. if skip then invoke e DestroyProcessGroup w
           else thn (invoke e Barrier) (\<lambda>_. thn (sample_all a e) (\<lambda>_. finish a e)) w))))"
    by (intro logs_thn logs_load_models logs_lift logs_skip_check logs_after_startup
        logs_sample_batch; simp)
  from assms[unfolded eq] show ?thesis
  proof (rule thn_split[where P = ?P])
    show "logs ?P (thn (load_models a e) (\<lambda>_.
       thn (lift (py_assert (float_ge_one (cfg_scale a)) ''cfg_scale should be >= 1.0'')) (\<lambda>_.
       thn (skip_check a e) (\<lambda>skip w. if skip then invoke e DestroyProcessGroup w
           else thn (invoke e Barrier) (\<lambda>_. thn (sample_all a e) (\<lambda>_. finish a e)) w))))"
      for x :: unit by (rule l)
  next
    fix r1 w1 cs
    assume "init_worker a e w = (r1, w1)" "calls w' = calls w1 @ cs" "list_all ?P cs"
    then show ?thesis using that seeds_none by blast
  qed
qed

lemma main_seeds:
  assumes "main a e w = (r, w')"
  shows "seeds (new_calls w w') = []
       \<or> seeds (new_calls w w') = [derive_seed (global_seed a) (rank e) (world_size e)]"
    and "cuda_available e \<and> device_count e \<noteq> 0
         \<and> fails e (length (calls w)) SetGradEnabled = None
         \<and> fails e (Suc (length (calls w))) InitProcessGroup = None
       \<longrightarrow> seeds (new_calls w w') = [derive_seed (global_seed a) (rank e) (world_size e)]"
proof -
  from assms obtain ri wi cs where i: "init_worker a e w = (ri, wi)"
    "calls w' = calls wi @ cs" "seeds cs = []" by (rule main_after_init)
  define csi where "csi = new_calls w wi"
  have "calls wi = calls w @ csi" unfolding csi_def by (rule init_worker_seeds(1)[OF i(1)])
  with i(2) have "new_calls w w' = csi @ cs" by (simp add: new_calls_def)
  then have s: "seeds (new_calls w w') = seeds (new_calls w wi)"
    using i(3) by (simp add: seeds_append csi_def)
  from init_worker_seeds(2)[OF i(1)] s
  show "seeds (new_calls w w') = []
       \<or> seeds (new_calls w w') = [derive_seed (global_seed a) (rank e) (world_size e)]"
    by simp
  from init_worker_seeds(3)[OF i(1)] s
  show "cuda_available e \<and> device_count e \<noteq> 0
         \<and> fails e (length (calls w)) SetGradEnabled = None
         \<and> fails e (Suc (length (calls w))) InitProcessGroup = None
       \<longrightarrow> seeds (new_calls w w') = [derive_seed (global_seed a) (rank e) (world_size e)]"
    by simp
qed

text \<open>
  C6.  The per-rank seed is a function of \<open>global_seed\<close>, \<open>rank\<close> and \<open>world_size\<close>
  alone: two runs that agree on these three values and both reach
  \<^verbatim>\<open>torch.manual_seed\<close> seed the generator with the same value, whatever else differs
  (other arguments, files, failures).  A run seeds at most once, with
  \<open>(global_seed + rank) * world_size // 2\<close>, and does so as soon as a device is available
  and the process group is set up.
\<close>

theorem seed_deterministic:
  assumes "global_seed a1 = global_seed a2" "rank e1 = rank e2" "world_size e1 = world_size e2"
    and "main a1 e1 w1 = (r1, w1')" and "main a2 e2 w2 = (r2, w2')"
  shows "(seeds (new_calls w1 w1') \<noteq> [] \<and> seeds (new_calls w2 w2') \<noteq> []
            \<longrightarrow> seeds (new_calls w1 w1') = seeds (new_calls w2 w2'))
       \<and> (seeds (new_calls w1 w1') = []
            \<or> seeds (new_calls w1 w1') = [derive_seed (global_seed a1) (rank e1) (world_size e1)])
       \<and> (cuda_available e1 \<and> device_count e1 \<noteq> 0
            \<and> fails e1 (length (calls w1)) SetGradEnabled = None
            \<and> fails e1 (Suc (length (calls w1))) InitProcessGroup = None
          \<longrightarrow> seeds (new_calls w1 w1')
                = [derive_seed (global_seed a1) (rank e1) (world_size e1)])"
  using main_seeds[OF assms(4)] main_seeds(1)[OF assms(5)] assms(1,2,3) by auto

theorem seed_deterministic_witness:
  "global_seed demo_args = global_seed low_cfg_args
   \<and> seeds (new_calls empty_world (snd (main demo_args demo_env empty_world))) = [0]
   \<and> seeds (new_calls archived_world (snd (main low_cfg_args demo_env archived_world))) = [0]"
proof -
  have g1: "global_seed demo_args = 0" by (simp add: demo_args_def)
  have g2: "global_seed low_cfg_args = 0" by (simp add: low_cfg_args_def demo_args_def)
  have g: "global_seed demo_args = global_seed low_cfg_args" by (simp only: g1 g2)
  have m1: "main demo_args demo_env empty_world
      = (fst (main demo_args demo_env empty_world), snd (main demo_args demo_env empty_world))"
    by simp
  have m2: "main low_cfg_args demo_env archived_world
      = (fst (main low_cfg_args demo_env archived_world),
         snd (main low_cfg_args demo_env archived_world))"
    by simp
  have s: "derive_seed 0 (rank demo_env) (world_size demo_env) = 0"
    by (simp add: derive_seed_def demo_env_def)
  have c: "cuda_available demo_env \<and> device_count demo_env \<noteq> 0"
    "fails demo_env j c = None" for j c
    by (simp_all add: demo_env_def)
  have s2: "derive_seed (global_seed low_cfg_args) (rank demo_env) (world_size demo_env) = 0"
    "derive_seed (global_seed demo_args) (rank demo_env) (world_size demo_env) = 0"
    by (simp_all only: g1 g2 s)
  from seed_deterministic[OF g refl refl m1 m2] c
  have "seeds (new_calls empty_world (snd (main demo_args demo_env empty_world)))
      = [derive_seed (global_seed demo_args) (rank demo_env) (world_size demo_env)]"
    by blast
  moreover from seed_deterministic[OF g[symmetric] refl refl m2 m1] c
  have "seeds (new_calls archived_world (snd (main low_cfg_args demo_env archived_world)))
      = [derive_seed (global_seed low_cfg_args) (rank demo_env) (world_size demo_env)]"
    by blast
  ultimately show ?thesis using g by (simp only: s2 simp_thms)
qed


subsection \<open>Where the skip decision is taken\<close>

lemma path_checks_append: "path_checks (xs @ ys) = path_checks xs @ path_checks ys"
  by (induction xs rule: path_checks.induct) simp_all

lemma path_checks_none: "list_all (\<lambda>c. path_checks [c] = []) cs \<Longrightarrow> path_checks cs = []"
  by (induction cs rule: path_checks.induct) simp_all

lemma startup_path_checks:
  assumes "startup a e w = (rs, w1)"
  shows "path_checks (new_calls w w1) = []
       \<or> path_checks (new_calls w w1) = [npz_path (sample_folder_dir a e)]"
    and "rank e \<noteq> 0 \<Longrightarrow> path_checks (new_calls w w1) = []"
proof -
  let ?P = "\<lambda>c. path_checks [c] = []"
  have l1: "logs ?P (init_worker a e)" by (intro logs_init_worker; simp)
  have l2: "logs ?P (load_models a e)" by (intro logs_load_models; simp)
  have lp: "logs ?P (prepare a e)"
    unfolding prepare_def by (rule logs_thn[OF l1 l2])
  have "(path_checks (new_calls w w1) = []
       \<or> path_checks (new_calls w w1) = [npz_path (sample_folder_dir a e)])
     \<and> (rank e \<noteq> 0 \<longrightarrow> path_checks (new_calls w w1) = [])"
    using assms unfolding startup_def
  proof (cases rule: thn_cases)
    case (stop st)
    from logs_new_calls[OF lp stop(1)] have "path_checks (new_calls w w1) = []"
      by (rule path_checks_none)
    then show ?thesis by simp
  next
    case (go x w2)
    from logsD[OF lp go(1)] obtain cs where cs: "calls w2 = calls w @ cs" "list_all ?P cs"
      by blast
    have pcs: "path_checks cs = []" using cs(2) by (rule path_checks_none)
    from go(2) show ?thesis
    proof (cases rule: thn_cases)
      case (stop st)
      then have "w1 = w2" by (auto simp: lift_eq split: sum.splits)
      with cs(1) pcs show ?thesis by (simp add: new_calls_def)
    next
      case (go y w3)
      then have w3: "w3 = w2" by (auto simp: lift_eq split: sum.splits)
      with go have sc: "skip_check a e w2 = (rs, w1)" by simp
      define cs2 where "cs2 = new_calls w2 w1"
      have "calls w1 = calls w2 @ cs2" unfolding cs2_def by (rule skip_check_extends[OF sc])
      with cs(1) have "new_calls w w1 = cs @ cs2" by (simp add: new_calls_def)
      then have n: "new_calls w w1 = cs @ new_calls w2 w1" by (simp add: cs2_def)
      show ?thesis
      proof (cases "rank e = 0")
        case True
        from skip_check_rank0(1)[OF sc True] n pcs True show ?thesis
          by (simp add: path_checks_append)
      next
        case False
        from skip_check_other_rank(2)[OF sc False] n pcs show ?thesis
          by (simp add: path_checks_append)
      qed
    qed
  qed
  then show "path_checks (new_calls w w1) = []
       \<or> path_checks (new_calls w w1) = [npz_path (sample_folder_dir a e)]"
    and "rank e \<noteq> 0 \<Longrightarrow> path_checks (new_calls w w1) = []" by simp_all
qed

lemma skip_check_flag:
  assumes "skip_check a e w0 = (Inr skip, w1)"
  shows "skip = (if rank e = 0 then files w0 (npz_path (sample_folder_dir a e)) \<noteq> None
                 else skip_received e)"
proof (cases "rank e = 0")
  case True
  with skip_check_rank0(2)[OF assms True refl] show ?thesis by simp
next
  case False
  with skip_check_other_rank(3)[OF assms False] show ?thesis by simp
qed

lemma main_skipped_calls:
  assumes "files w (npz_path (sample_folder_dir a e)) \<noteq> None"
    and "rank e \<noteq> 0 \<longrightarrow> skip_received e"
    and "main a e w = (r, w')"
  shows "list_all (\<lambda>c. \<not> is_sampling_call c) (new_calls w w')"
  using assms(3) unfolding main_def
proof (cases rule: thn_cases)
  case (stop st)
  from logs_new_calls[OF logs_startup stop(1)] show ?thesis by (simp add: list_all_iff)
next
  case (go skip w1)
  from logsD[OF logs_startup go(1)] obtain cs where cs: "calls w1 = calls w @ cs"
    "list_all (\<lambda>c. \<not> is_sampling_call c \<and> c \<noteq> Barrier) cs" by blast
  from startup_skip(2)[OF assms(1,2) go(1)] have "skip" by simp
  with go(2) have "calls w' = calls w1 @ [DestroyProcessGroup]" by (auto simp: invoke_eq)
  with cs show ?thesis by (simp add: new_calls_def list_all_iff)
qed

text \<open>
  C5 (as amended).  What skips a run is the archive file \<^verbatim>\<open>sample_folder_dir + ".npz"\<close>,
  not the output directory.  The existence check is made at most once in a run, for the
  archive path, by rank \<open>0\<close> only, and before any call of the sampling loop; the flag a
  worker acts on is the result of that check on rank \<open>0\<close> and the broadcast value on
  every other rank.  When the archive exists and the flag is delivered, a worker makes no
  call of the sampling loop.
\<close>

theorem skip_decided_once_on_rank_zero:
  assumes "main a e w = (r, w')"
  shows "(path_checks (new_calls w w') = []
          \<or> path_checks (new_calls w w') = [npz_path (sample_folder_dir a e)])
    \<and> (rank e \<noteq> 0 \<longrightarrow> path_checks (new_calls w w') = [])
    \<and> (\<exists>cs1 cs2. new_calls w w' = cs1 @ cs2
          \<and> list_all (\<lambda>c. \<not> is_sampling_call c) cs1 \<and> path_checks cs2 = [])
    \<and> (\<forall>w0 skip w1. skip_check a e w0 = (Inr skip, w1) \<longrightarrow>
          skip = (if rank e = 0 then files w0 (npz_path (sample_folder_dir a e)) \<noteq> None
                  else skip_received e))
    \<and> (files w (npz_path (sample_folder_dir a e)) \<noteq> None
          \<and> (rank e \<noteq> 0 \<longrightarrow> skip_received e)
        \<longrightarrow> list_all (\<lambda>c. \<not> is_sampling_call c) (new_calls w w'))"
proof -
  let ?P = "\<lambda>c. path_checks [c] = []"
  from assms obtain rs w1 cs where s: "startup a e w = (rs, w1)" "calls w' = calls w1 @ cs"
    "list_all ?P cs"
    by (rule main_split[where P = ?P]) (auto intro!: logs_sample_batch)
  from logsD[OF logs_startup s(1)] obtain cs1 where cs1: "calls w1 = calls w @ cs1"
    "list_all (\<lambda>c. \<not> is_sampling_call c \<and> c \<noteq> Barrier) cs1" by blast
  have n1: "new_calls w w1 = cs1" using cs1(1) by (simp add: new_calls_def)
  have n: "new_calls w w' = cs1 @ cs" using cs1(1) s(2) by (simp add: new_calls_def)
  have pc: "path_checks cs = []" using s(3) by (rule path_checks_none)
  have p: "path_checks (new_calls w w') = path_checks (new_calls w w1)"
    by (simp add: n n1 path_checks_append pc)
  have 1: "path_checks (new_calls w w') = []
          \<or> path_checks (new_calls w w') = [npz_path (sample_folder_dir a e)]"
    using startup_path_checks(1)[OF s(1)] p by simp
  have 2: "rank e \<noteq> 0 \<longrightarrow> path_checks (new_calls w w') = []"
    using startup_path_checks(2)[OF s(1)] p by simp
  have "list_all (\<lambda>c. \<not> is_sampling_call c) cs1" using cs1(2) by (simp add: list_all_iff)
  with n pc have 3: "\<exists>cs1 cs2. new_calls w w' = cs1 @ cs2
          \<and> list_all (\<lambda>c. \<not> is_sampling_call c) cs1 \<and> path_checks cs2 = []" by blast
  from 1 2 3 skip_check_flag main_skipped_calls[OF _ _ assms] show ?thesis by blast
qed

theorem skip_decided_once_on_rank_zero_witness:
  "path_checks (new_calls archived_world (snd (main demo_args demo_env archived_world)))
     = [npz_path (sample_folder_dir demo_args demo_env)]
   \<and> list_all (\<lambda>c. \<not> is_sampling_call c)
       (new_calls archived_world (snd (main demo_args demo_env archived_world)))"
proof -
  have m: "main demo_args demo_env archived_world
      = (fst (main demo_args demo_env archived_world),
         snd (main demo_args demo_env archived_world))" by simp
  have h1: "files archived_world (npz_path (sample_folder_dir demo_args demo_env)) \<noteq> None"
    by code_simp
  have h2: "rank demo_env \<noteq> 0 \<longrightarrow> skip_received demo_env" by (simp add: demo_env_def)
  have ne: "path_checks (new_calls archived_world (snd (main demo_args demo_env archived_world)))
      \<noteq> []" by code_simp
  from skip_decided_once_on_rank_zero[OF m] h1 h2 ne show ?thesis by blast
qed

text \<open>
  C5 as stated fails: with the output directory present and no archive, the run is not
  skipped; it samples, saves an image and returns.
\<close>

theorem existing_directory_counterexample:
  "files dir_world (sample_folder_dir demo_args demo_env) = Some Directory
   \<and> files dir_world (npz_path (sample_folder_dir demo_args demo_env)) = None
   \<and> fst (main demo_args demo_env dir_world) = Inr ()
   \<and> saved (calls (snd (main demo_args demo_env dir_world))) = [png_path demo_folder 0]"
  by code_simp



subsection \<open>The archive builder\<close>

lemma opened_append: "opened (xs @ ys) = opened xs @ opened ys"
  by (induction xs rule: opened.induct) simp_all

lemma opened_none: "list_all (\<lambda>c. opened [c] = []) cs \<Longrightarrow> opened cs = []"
  by (induction cs rule: opened.induct) simp_all

lemma open_image_result:
  assumes "open_image e p w = (r, w')"
  shows "calls w' = calls w @ [OpenImage p]" and "files w' = files w"
    and "files w p = None \<Longrightarrow> \<exists>st. r = Inl st"
  using assms
  by (auto simp: open_image_def thn_def invoke_def Let_def
      split: prod.splits sum.splits option.splits node.splits)

text \<open>The loop of lines 40 to 43 opens the files of its indices in order, up to the first
  failure.\<close>

lemma read_samples_result:
  assumes "read_samples e dir xs w = (r, w')"
  shows "files w' = files w
    \<and> (\<exists>k cs. k \<le> length xs \<and> calls w' = calls w @ cs
          \<and> opened cs = map (\<lambda>i. png_path dir (int i)) (take k xs)
          \<and> ((\<exists>ys. r = Inr ys) \<longrightarrow> k = length xs))
    \<and> ((\<exists>i\<in>set xs. files w (png_path dir (int i)) = None) \<longrightarrow> (\<exists>st. r = Inl st))"
  using assms
proof (induction xs arbitrary: w r w')
  case Nil
  then show ?case by (simp add: ret_eq)
next
  case (Cons i rest)
  from Cons.prems[unfolded read_samples.simps] show ?case
  proof (cases rule: thn_cases)
    case (stop st)
    note o = open_image_result[OF stop(1)]
    have "(1::nat) \<le> length (i # rest) \<and> calls w' = calls w @ [OpenImage (png_path dir (int i))]
        \<and> opened [OpenImage (png_path dir (int i))]
            = map (\<lambda>i. png_path dir (int i)) (take 1 (i # rest))
        \<and> ((\<exists>ys. r = Inr ys) \<longrightarrow> (1::nat) = length (i # rest))"
      using o(1) stop(2) by simp
    then have "\<exists>k cs. k \<le> length (i # rest) \<and> calls w' = calls w @ cs
          \<and> opened cs = map (\<lambda>i. png_path dir (int i)) (take k (i # rest))
          \<and> ((\<exists>ys. r = Inr ys) \<longrightarrow> k = length (i # rest))" by blast
    with o(2) stop(2) show ?thesis by simp
  next
    case (go x w1)
    note o = open_image_result[OF go(1)]
    have nf: "files w (png_path dir (int i)) \<noteq> None" using o(3) by auto
    from go(2) obtain r2 where r2: "read_samples e dir rest w1 = (r2, w')"
      and rr: "(\<exists>st. r2 = Inl st \<and> r = Inl st) \<or> (\<exists>ys. r2 = Inr ys \<and> r = Inr (x # ys))"
      by (cases rule: thn_cases) (auto simp: ret_eq)
    from Cons.IH[OF r2] obtain k cs where
      f: "files w' = files w1" and k: "k \<le> length rest" "calls w' = calls w1 @ cs"
        "opened cs = map (\<lambda>i. png_path dir (int i)) (take k rest)"
        "(\<exists>ys. r2 = Inr ys) \<longrightarrow> k = length rest"
      and m: "(\<exists>i\<in>set rest. files w1 (png_path dir (int i)) = None) \<longrightarrow> (\<exists>st. r2 = Inl st)"
      by blast
    have "Suc k \<le> length (i # rest)
        \<and> calls w' = calls w @ (OpenImage (png_path dir (int i)) # cs)
        \<and> opened (OpenImage (png_path dir (int i)) # cs)
            = map (\<lambda>i. png_path dir (int i)) (take (Suc k) (i # rest))
        \<and> ((\<exists>ys. r = Inr ys) \<longrightarrow> Suc k = length (i # rest))"
      using k o(1) rr by auto
    then have "\<exists>k cs. k \<le> length (i # rest) \<and> calls w' = calls w @ cs
          \<and> opened cs = map (\<lambda>i. png_path dir (int i)) (take k (i # rest))
          \<and> ((\<exists>ys. r = Inr ys) \<longrightarrow> k = length (i # rest))" by blast
    moreover have "(\<exists>j\<in>set (i # rest). files w (png_path dir (int j)) = None)
        \<longrightarrow> (\<exists>st. r = Inl st)"
      using m nf o(2) rr by auto
    ultimately show ?thesis using f o(2) by simp
  qed
qed

lemma savez_result:
  assumes "savez e p arr w = (r, w')"
  shows "\<exists>cs. calls w' = calls w @ cs \<and> opened cs = []"
    and "(\<exists>st. r = Inl st) \<Longrightarrow> files w' = files w"
  using assms
  by (auto simp: savez_def thn_def invoke_def Let_def
      split: prod.splits sum.splits option.splits)

lemma create_npz_result:
  assumes "create_npz_from_sample_folder e dir num w = (r, w')"
  shows "\<exists>k cs. k \<le> nat num \<and> calls w' = calls w @ cs
          \<and> opened cs = map (\<lambda>i. png_path dir (int i)) [0..<k]
          \<and> ((\<exists>p. r = Inr p) \<longrightarrow> k = nat num)"
    and "(\<exists>i<nat num. files w (png_path dir (int i)) = None) \<Longrightarrow> \<exists>st. r = Inl st"
    and "(\<exists>st. r = Inl st) \<Longrightarrow> files w' = files w"
proof -
  from assms[unfolded create_npz_from_sample_folder_def]
  have "(\<exists>k cs. k \<le> nat num \<and> calls w' = calls w @ cs
          \<and> opened cs = map (\<lambda>i. png_path dir (int i)) [0..<k]
          \<and> ((\<exists>p. r = Inr p) \<longrightarrow> k = nat num))
      \<and> ((\<exists>i<nat num. files w (png_path dir (int i)) = None) \<longrightarrow> (\<exists>st. r = Inl st))
      \<and> ((\<exists>st. r = Inl st) \<longrightarrow> files w' = files w)"
  proof (cases rule: thn_cases)
    case (stop st)
    from read_samples_result[OF stop(1)] stop(2) show ?thesis
      by (auto simp: take_upt)
  next
    case (go samples w1)
    from read_samples_result[OF go(1)] obtain cs where
      f1: "files w1 = files w" and c1: "calls w1 = calls w @ cs"
        "opened cs = map (\<lambda>i. png_path dir (int i)) [0..<nat num]"
      and m1: "\<not> (\<exists>i<nat num. files w (png_path dir (int i)) = None)"
      by auto
    have tail: "(\<exists>cs2. calls w' = calls w1 @ cs2 \<and> opened cs2 = [])
        \<and> ((\<exists>st. r = Inl st) \<longrightarrow> files w' = files w1)"
      using go(2)
    proof (cases rule: thn_cases)
      case (stop st)
      then show ?thesis by (auto simp: lift_eq split: sum.splits)
    next
      case (go arr w2)
      then have w2: "w2 = w1" by (auto simp: lift_eq split: sum.splits)
      from go(2) show ?thesis
      proof (cases rule: thn_cases)
        case (stop st)
        then show ?thesis using w2 by (auto simp: lift_eq split: sum.splits)
      next
        case (go u w3)
        then have w3: "w3 = w1" using w2 by (auto simp: lift_eq split: sum.splits)
        from go(2) show ?thesis
        proof (cases rule: thn_cases)
          case (stop st)
          from savez_result[OF stop(1)] stop(2) w3 show ?thesis by auto
        next
          case (go v w4)
          from savez_result(1)[OF go(1)] go(2) w3 show ?thesis by (auto simp: ret_eq)
        qed
      qed
    qed
    then obtain cs2 where c2: "calls w' = calls w1 @ cs2" "opened cs2 = []"
      and f2: "(\<exists>st. r = Inl st) \<longrightarrow> files w' = files w1" by blast
    have "nat num \<le> nat num \<and> calls w' = calls w @ (cs @ cs2)
        \<and> opened (cs @ cs2) = map (\<lambda>i. png_path dir (int i)) [0..<nat num]"
      using c1 c2 by (simp add: opened_append)
    then have "\<exists>k cs. k \<le> nat num \<and> calls w' = calls w @ cs
          \<and> opened cs = map (\<lambda>i. png_path dir (int i)) [0..<k]
          \<and> ((\<exists>p. r = Inr p) \<longrightarrow> k = nat num)" by blast
    with m1 f1 f2 show ?thesis by auto
  qed
  then show "\<exists>k cs. k \<le> nat num \<and> calls w' = calls w @ cs
          \<and> opened cs = map (\<lambda>i. png_path dir (int i)) [0..<k]
          \<and> ((\<exists>p. r = Inr p) \<longrightarrow> k = nat num)"
    and "(\<exists>i<nat num. files w (png_path dir (int i)) = None) \<Longrightarrow> \<exists>st. r = Inl st"
    and "(\<exists>st. r = Inl st) \<Longrightarrow> files w' = files w"
    by blast+
qed


lemma finish_opened:
  assumes "finish a e w0 = (r0, w0')" "rank e = 0"
  shows "\<exists>k\<le>nat (num_fid_samples a).
           opened (new_calls w0 w0')
             = map (\<lambda>i. png_path (sample_folder_dir a e) (int i)) [0..<k]
         \<and> (r0 = Inr () \<longrightarrow> k = nat (num_fid_samples a))"
  using assms(1) unfolding finish_def
proof (cases rule: thn_cases)
  case (stop st)
  then have "calls w0' = calls w0 @ [Barrier]" by (auto simp: invoke_eq)
  then have "opened (new_calls w0 w0') = []" by (simp add: new_calls_def)
  with stop(2) show ?thesis by (intro exI[of _ 0]) simp
next
  case (go x w1)
  then have w1: "calls w1 = calls w0 @ [Barrier]" by (auto simp: invoke_eq)
  from go(2) show ?thesis
  proof (cases rule: thn_cases)
    case (stop st)
    then show ?thesis by (simp add: sync_peers_def)
  next
    case (go y w2)
    then have w2: "calls w2 = calls w1" by (auto simp: sync_peers_def)
    let ?tail = "thn (invoke e Barrier) (\<lambda>_. invoke e DestroyProcessGroup)"
    have lt: "logs (\<lambda>c. opened [c] = []) ?tail" by (intro logs_intros; simp)
    from go(2) assms(2)
    have "thn (thn (create_npz_from_sample_folder e (sample_folder_dir a e) (num_fid_samples a))
                 (\<lambda>_. ret ())) (\<lambda>_. ?tail) w2 = (r0, w0')" by simp
    then show ?thesis
    proof (cases rule: thn_cases)
      case (stop st)
      then obtain rc where c: "create_npz_from_sample_folder e (sample_folder_dir a e)
          (num_fid_samples a) w2 = (rc, w0')" and rc: "\<not> (\<exists>p. rc = Inr p)"
        by (cases rule: thn_cases) (auto simp: ret_eq)
      from create_npz_result(1)[OF c] obtain k cs where
        k: "k \<le> nat (num_fid_samples a)" "calls w0' = calls w2 @ cs"
          "opened cs = map (\<lambda>i. png_path (sample_folder_dir a e) (int i)) [0..<k]" by blast
      have "opened (new_calls w0 w0') = opened cs"
        using k(2) w2 w1 by (simp add: new_calls_def)
      with k stop(2) show ?thesis by auto
    next
      case (go z w3)
      then obtain p where c: "create_npz_from_sample_folder e (sample_folder_dir a e)
          (num_fid_samples a) w2 = (Inr p, w3)"
        by (cases rule: thn_cases) (auto simp: ret_eq)
      from create_npz_result(1)[OF c] obtain cs where
        k: "calls w3 = calls w2 @ cs"
          "opened cs = map (\<lambda>i. png_path (sample_folder_dir a e) (int i))
             [0..<nat (num_fid_samples a)]" by auto
      from logsD[OF lt go(2)] obtain cs4 where c4: "calls w0' = calls w3 @ cs4"
        "list_all (\<lambda>c. opened [c] = []) cs4" by blast
      have o4: "opened cs4 = []" using c4(2) by (rule opened_none)
      have "new_calls w0 w0' = Barrier # cs @ cs4"
        using c4(1) k(1) w2 w1 by (simp add: new_calls_def)
      then have "opened (new_calls w0 w0') = opened cs" using o4 by (simp add: opened_append)
      with k(2) show ?thesis by auto
    qed
  qed
qed

text \<open>
  C3.  The archive builder opens the image files of the indices \<open>0, 1, 2, \<dots>\<close> in
  increasing order and, when it succeeds, exactly those of \<open>0\<close> to \<open>num - 1\<close>; if a file
  of that range is absent it fails, and a failed build leaves the file system as it was
  (no archive is written).  The driver calls it on rank \<open>0\<close> with
  \<^verbatim>\<open>args.num_fid_samples\<close>, the requested count, whatever \<open>total_samples\<close> is.
\<close>

theorem archive_reads_requested_prefix:
  "(create_npz_from_sample_folder e dir num w = (r, w') \<longrightarrow>
       (\<exists>k\<le>nat num. opened (new_calls w w') = map (\<lambda>i. png_path dir (int i)) [0..<k]
                     \<and> ((\<exists>p. r = Inr p) \<longrightarrow> k = nat num))
     \<and> ((\<exists>i<nat num. files w (png_path dir (int i)) = None)
          \<longrightarrow> (\<exists>st. r = Inl st) \<and> files w' = files w)
     \<and> ((\<exists>st. r = Inl st) \<longrightarrow> files w' = files w))
   \<and> (finish a e w0 = (r0, w0') \<and> rank e = 0 \<longrightarrow>
       (\<exists>k\<le>nat (num_fid_samples a).
           opened (new_calls w0 w0')
             = map (\<lambda>i. png_path (sample_folder_dir a e) (int i)) [0..<k]
         \<and> (r0 = Inr () \<longrightarrow> k = nat (num_fid_samples a))))"
proof (intro conjI impI)
  assume c: "create_npz_from_sample_folder e dir num w = (r, w')"
  from create_npz_result(1)[OF c] obtain k cs where
    "k \<le> nat num" "calls w' = calls w @ cs"
    "opened cs = map (\<lambda>i. png_path dir (int i)) [0..<k]" "(\<exists>p. r = Inr p) \<longrightarrow> k = nat num"
    by blast
  then show "\<exists>k\<le>nat num. opened (new_calls w w') = map (\<lambda>i. png_path dir (int i)) [0..<k]
                     \<and> ((\<exists>p. r = Inr p) \<longrightarrow> k = nat num)"
    by (auto simp: new_calls_def)
  show "files w' = files w" if "\<exists>st. r = Inl st" using create_npz_result(3)[OF c that] .
  show "\<exists>st. r = Inl st" if m: "\<exists>i<nat num. files w (png_path dir (int i)) = None"
    using create_npz_result(2)[OF c m] .
  show "files w' = files w" if m: "\<exists>i<nat num. files w (png_path dir (int i)) = None"
    using create_npz_result(3)[OF c create_npz_result(2)[OF c m]] .
next
  assume "finish a e w0 = (r0, w0') \<and> rank e = 0"
  then show "\<exists>k\<le>nat (num_fid_samples a).
           opened (new_calls w0 w0')
             = map (\<lambda>i. png_path (sample_folder_dir a e) (int i)) [0..<k]
         \<and> (r0 = Inr () \<longrightarrow> k = nat (num_fid_samples a))"
    using finish_opened by blast
qed

theorem archive_reads_requested_prefix_witness:
  "opened (new_calls two_images_world
      (snd (create_npz_from_sample_folder demo_env demo_folder 2 two_images_world)))
     = [png_path demo_folder 0, png_path demo_folder 1]
   \<and> files two_images_world (png_path demo_folder 2) = None
   \<and> (\<exists>st. fst (create_npz_from_sample_folder demo_env demo_folder 3 two_images_world) = Inl st)
   \<and> files (snd (create_npz_from_sample_folder demo_env demo_folder 3 two_images_world))
       = files two_images_world"
proof -
  let ?c2 = "create_npz_from_sample_folder demo_env demo_folder 2 two_images_world"
  let ?c3 = "create_npz_from_sample_folder demo_env demo_folder 3 two_images_world"
  have ok: "fst ?c2 = Inr (npz_path demo_folder)" by code_simp
  have miss: "files two_images_world (png_path demo_folder 2) = None" by code_simp
  then have m: "\<exists>i<nat 3. files two_images_world (png_path demo_folder (int i)) = None"
    by (intro exI[of _ 2]) simp
  have u: "[0..<nat 2] = [0, 1]" by (simp add: upt_rec)
  have p2: "?c2 = (Inr (npz_path demo_folder), snd ?c2)" using ok by (metis prod.collapse)
  from archive_reads_requested_prefix[of demo_env demo_folder 2 two_images_world
      "Inr (npz_path demo_folder)" "snd ?c2"] p2
  obtain k where "k \<le> nat 2" "opened (new_calls two_images_world (snd ?c2))
      = map (\<lambda>i. png_path demo_folder (int i)) [0..<k]" "k = nat 2"
    by blast
  then have "opened (new_calls two_images_world (snd ?c2))
      = map (\<lambda>i. png_path demo_folder (int i)) [0..<nat 2]" by simp
  then have 1: "opened (new_calls two_images_world (snd ?c2))
      = [png_path demo_folder 0, png_path demo_folder 1]" by (simp only: u) simp
  have p3: "?c3 = (fst ?c3, snd ?c3)" by simp
  from archive_reads_requested_prefix[of demo_env demo_folder 3 two_images_world
      "fst ?c3" "snd ?c3"] p3 m
  have "(\<exists>st. fst ?c3 = Inl st) \<and> files (snd ?c3) = files two_images_world" by blast
  with 1 miss show ?thesis by simp
qed


subsection \<open>Sample indices\<close>

lemma worker_indices_eq:
  assumes "0 \<le> n"
  shows "worker_indices k n ws r tot = map (\<lambda>j. int j * ws + r + tot) [0..<k * nat n]"
proof (induction k arbitrary: tot)
  case 0
  show ?case by simp
next
  case (Suc k)
  let ?N = "nat n"
  let ?f = "\<lambda>j. int j * ws + r + tot"
  have n: "int ?N = n" using assms by simp
  have "[0..<Suc k * ?N] = [0..<?N] @ [?N..<k * ?N + ?N]"
    using upt_add_eq_append[of 0 ?N "k * ?N"] by (simp add: add.commute)
  moreover have "[?N..<k * ?N + ?N] = map (\<lambda>i. i + ?N) [0..<k * ?N]"
    by (simp add: map_add_upt)
  ultimately have "map ?f [0..<Suc k * ?N]
      = map ?f [0..<?N] @ map (\<lambda>j. ?f (j + ?N)) [0..<k * ?N]"
    by (simp add: comp_def)
  moreover have "?f (j + ?N) = int j * ws + r + (tot + n * ws)" for j
    using n by (simp add: algebra_simps)
  ultimately show ?case
    by (simp add: Suc.IH batch_indices_def)
qed

lemma index_set:
  assumes "0 < W"
  shows "(\<Union>r\<in>{0..<W}. (\<lambda>j. int j * int W + int r) ` {0..<M}) = {0..<int (M * W)}"
proof (intro set_eqI iffI)
  fix x
  assume "x \<in> (\<Union>r\<in>{0..<W}. (\<lambda>j. int j * int W + int r) ` {0..<M})"
  then obtain r j where rj: "r < W" "j < M" "x = int j * int W + int r" by auto
  have "j * W + r < Suc j * W" using rj(1) by simp
  also have "\<dots> \<le> M * W" using rj(2) by (intro mult_le_mono1) simp
  finally have "j * W + r < M * W" .
  then have "int (j * W + r) < int (M * W)" by (simp only: of_nat_less_iff)
  moreover have "x = int (j * W + r)" using rj(3) by (simp only: of_nat_add of_nat_mult)
  ultimately show "x \<in> {0..<int (M * W)}" by simp
next
  fix x
  assume "x \<in> {0..<int (M * W)}"
  then have x: "0 \<le> x" "nat x < M * W" by (simp_all add: nat_less_iff)
  define j where "j = nat x div W"
  define r where "r = nat x mod W"
  have "r < W" using assms by (simp add: r_def)
  moreover have "j < M" unfolding j_def using x(2) by (simp add: less_mult_imp_div_less)
  moreover have "nat x = j * W + r" by (simp add: j_def r_def)
  then have "x = int j * int W + int r" using x(1)
    by (metis int_nat_eq of_nat_add of_nat_mult)
  ultimately have "r \<in> {0..<W}" "j \<in> {0..<M}" "x = (\<lambda>j. int j * int W + int r) j"
    by simp_all
  then show "x \<in> (\<Union>r\<in>{0..<W}. (\<lambda>j. int j * int W + int r) ` {0..<M})" by blast
qed

lemma all_indices_set:
  assumes "1 \<le> n" "1 \<le> ws"
  shows "set (all_indices p n ws) = {0..<int (nat (iterations p) * nat n * nat ws)}"
proof -
  have ws: "int (nat ws) = ws" "0 < nat ws" using assms by simp_all
  have n0: "0 \<le> n" using assms(1) by simp
  have "set (all_indices p n ws)
      = (\<Union>r\<in>{0..<nat ws}. (\<lambda>j. int j * ws + int r) ` {0..<nat (iterations p) * nat n})"
    by (simp add: all_indices_def worker_indices_eq[OF n0])
  also have "\<dots> = (\<Union>r\<in>{0..<nat ws}.
      (\<lambda>j. int j * int (nat ws) + int r) ` {0..<nat (iterations p) * nat n})"
    by (simp only: ws(1))
  also have "\<dots> = {0..<int (nat (iterations p) * nat n * nat ws)}"
    by (rule index_set[OF ws(2)])
  finally show ?thesis .
qed

lemma all_indices_length:
  assumes "1 \<le> n"
  shows "length (all_indices p n ws) = nat (iterations p) * nat n * nat ws"
proof -
  have n0: "0 \<le> n" using assms(1) by simp
  have "length (concat (map (\<lambda>r. map (g r) js) rs)) = length rs * length js"
    for g :: "nat \<Rightarrow> nat \<Rightarrow> int" and js rs
    by (induction rs) simp_all
  from this[of "\<lambda>r j. int j * ws + int r + 0" "[0..<nat (iterations p) * nat n]" "[0..<nat ws]"]
  show ?thesis by (simp add: all_indices_def worker_indices_eq[OF n0] mult.commute)
qed

lemma all_indices_distinct:
  assumes "1 \<le> n" "1 \<le> ws"
  shows "distinct (all_indices p n ws)"
proof (rule card_distinct)
  show "card (set (all_indices p n ws)) = length (all_indices p n ws)"
    by (simp only: all_indices_set[OF assms] all_indices_length[OF assms(1)]
        card_atLeastLessThan_int diff_zero nat_int)
qed

lemma plan_Inr:
  assumes "plan requested n ws = Inr p" "n \<noteq> 0" "ws \<noteq> 0"
  shows "total_samples p = iterations p * (n * ws)"
  using plan_cases[of requested n ws] assms
  by (auto simp: split_samples_multiple)

lemma total_range:
  assumes "1 \<le> n" "1 \<le> ws"
  shows "{0..<int (nat c * nat n * nat ws)} = {0..<c * (n * ws)}"
proof (cases "0 \<le> c")
  case True
  have "int (nat c) = c" "int (nat n) = n" "int (nat ws) = ws" using True assms by simp_all
  then have "int (nat c * nat n * nat ws) = c * (n * ws)"
    by (simp only: of_nat_mult mult.assoc)
  then show ?thesis by simp
next
  case False
  have "0 < n * ws" using assms by simp
  with False have "c * (n * ws) < 0" by (simp add: mult_neg_pos)
  with False show ?thesis by simp
qed


lemma index_bij:
  assumes "0 < N" "0 < W"
  shows "bij_betw (\<lambda>(t, i, r). int i * int W + int r + int t * (int N * int W))
           ({..<K} \<times> {..<N} \<times> {..<W}) {0..<int (K * N * W)}"
proof -
  let ?F = "\<lambda>(t, i, r). int i * int W + int r + int t * (int N * int W)"
  let ?D = "{..<K} \<times> {..<N} \<times> {..<W}"
  have F: "?F (t, i, r) = int (t * N + i) * int W + int r" for t i r
    by (simp add: algebra_simps)
  have img: "?F ` ?D = {0..<int (K * N * W)}"
  proof (intro set_eqI iffI)
    fix x
    assume "x \<in> ?F ` ?D"
    then obtain t i r where d: "t < K" "i < N" "r < W" "x = ?F (t, i, r)" by auto
    have "t * N + i < Suc t * N" using d(2) by simp
    also have "\<dots> \<le> K * N" using d(1) by (intro mult_le_mono1) simp
    finally have "t * N + i \<in> {0..<K * N}" by simp
    moreover have "r \<in> {0..<W}" using d(3) by simp
    moreover have "x = (\<lambda>j. int j * int W + int r) (t * N + i)" using d(4) F by simp
    ultimately have "x \<in> (\<Union>r\<in>{0..<W}. (\<lambda>j. int j * int W + int r) ` {0..<K * N})"
      by blast
    then show "x \<in> {0..<int (K * N * W)}" by (simp only: index_set[OF assms(2)])
  next
    fix x
    assume "x \<in> {0..<int (K * N * W)}"
    then have "x \<in> (\<Union>r\<in>{0..<W}. (\<lambda>j. int j * int W + int r) ` {0..<K * N})"
      by (simp only: index_set[OF assms(2)])
    then obtain r j where rj: "r < W" "j < K * N" "x = int j * int W + int r" by auto
    have "j div N < K" using rj(2) by (simp add: less_mult_imp_div_less)
    moreover have "j mod N < N" using assms(1) by simp
    moreover have "x = ?F (j div N, j mod N, r)" unfolding F using rj(3) by simp
    ultimately have "(j div N, j mod N, r) \<in> ?D" "x = ?F (j div N, j mod N, r)"
      using rj(1) by simp_all
    then show "x \<in> ?F ` ?D" by (rule rev_image_eqI)
  qed
  have "card {0..<int (K * N * W)} = K * N * W"
    by (simp only: card_atLeastLessThan_int diff_zero nat_int)
  moreover have "card ?D = K * N * W" by (simp add: card_cartesian_product)
  ultimately have "card (?F ` ?D) = card ?D" by (simp only: img)
  then have "inj_on ?F ?D" by (intro eq_card_imp_inj_on) simp_all
  with img show ?thesis by (simp only: bij_betw_def simp_thms)
qed


subsection \<open>The indices the loop saves\<close>

lemma saved_append: "saved (xs @ ys) = saved xs @ saved ys"
  by (induction xs rule: saved.induct) simp_all

lemma thn_invoke_Inr:
  assumes "thn (invoke e c) f w = (Inr u, w')"
  shows "f () (w\<lparr>calls := calls w @ [c]\<rparr>) = (Inr u, w')"
  using assms by (cases rule: thn_cases) (auto simp: invoke_eq split: option.splits)

lemma thn_pure_Inr:
  assumes "thn m (\<lambda>_. g) w = (Inr u, w')" "\<And>r w1. m w = (r, w1) \<Longrightarrow> w1 = w"
  shows "g w = (Inr u, w')"
  using assms(1)
proof (cases rule: thn_cases)
  case (go x w1)
  with assms(2)[OF go(1)] show ?thesis by simp
qed simp

lemma map_snd_zip_eq:
  "length xs = length ys \<Longrightarrow> map (\<lambda>x. f (snd x)) (zip xs ys) = map f ys"
  by (induction xs ys rule: list_induct2) simp_all

lemma save_images_saved:
  assumes "save_images e folder k xs w = (Inr u, w')"
  shows "\<exists>cs. calls w' = calls w @ cs \<and> saved cs = map (\<lambda>x. png_path folder (snd x)) xs"
  using assms
proof (induction xs arbitrary: w)
  case Nil
  then show ?case by (simp add: ret_eq)
next
  case (Cons x rest)
  obtain i index where x: "x = (i, index)" by (cases x)
  from Cons.prems[unfolded x save_images.simps save_image_def thn_assoc]
  have "thn (invoke e (SaveImage (png_path folder index)))
          (\<lambda>_. thn (\<lambda>w. (Inr (), w\<lparr>files := (files w)(png_path folder index \<mapsto> PngFile (decoded e k i))\<rparr>))
                 (\<lambda>_. save_images e folder k rest)) w = (Inr u, w')" .
  from thn_invoke_Inr[OF this]
  have "save_images e folder k rest
          (w\<lparr>calls := calls w @ [SaveImage (png_path folder index)],
             files := (files w)(png_path folder index \<mapsto> PngFile (decoded e k i))\<rparr>) = (Inr u, w')"
    by (simp add: thn_def)
  from Cons.IH[OF this] obtain cs where
    "calls w' = calls w @ SaveImage (png_path folder index) # cs"
    "saved cs = map (\<lambda>x. png_path folder (snd x)) rest" by auto
  then have "calls w' = calls w @ (SaveImage (png_path folder index) # cs)
      \<and> saved (SaveImage (png_path folder index) # cs) = map (\<lambda>x. png_path folder (snd x)) (x # rest)"
    by (simp add: x)
  then show ?case by blast
qed

lemma sample_batch_saved:
  assumes "sample_batch a e k tot w = (Inr u, w')"
  shows "\<exists>cs. calls w' = calls w @ cs
    \<and> saved cs = map (png_path (sample_folder_dir a e))
        (batch_indices (pproc_batch_size a) (world_size e) (rank e) tot)"
proof -
  let ?n = "pproc_batch_size a"
  let ?ix = "batch_indices ?n (world_size e) (rank e) tot"
  let ?S = "save_images e (sample_folder_dir a e) k (zip [0..<nat ?n] ?ix)"
  note s1 = thn_invoke_Inr[OF assms[unfolded sample_batch_def Let_def]]
  have s2: "thn (invoke e (Randint ?n)) (\<lambda>_.
     thn (lift (py_assert (\<not> heun a \<or> mode a = ''ode'') heun_message)) (\<lambda>_.
     thn (if mode a = ''sde'' then invoke e EulerMaruyamaSampler
          else if mode a = ''ode'' then invoke e EulerSampler
          else throw NotImplementedError) (\<lambda>_.
     thn (invoke e VaeDecode) (\<lambda>_. ?S)))) (w\<lparr>calls := calls w @ [Randn ?n]\<rparr>) = (Inr u, w')"
    by (rule thn_pure_Inr[OF s1]) (auto simp: ret_eq throw_eq split: if_splits)
  note s3 = thn_invoke_Inr[OF s2]
  have s4: "thn (if mode a = ''sde'' then invoke e EulerMaruyamaSampler
          else if mode a = ''ode'' then invoke e EulerSampler
          else throw NotImplementedError) (\<lambda>_.
     thn (invoke e VaeDecode) (\<lambda>_. ?S))
       (w\<lparr>calls := calls w @ [Randn ?n, Randint ?n]\<rparr>) = (Inr u, w')"
    using thn_pure_Inr[OF s3] by (auto simp: lift_eq)
  from s4 obtain c where c: "saved [c] = []"
    and s5: "thn (invoke e c) (\<lambda>_. thn (invoke e VaeDecode) (\<lambda>_. ?S))
       (w\<lparr>calls := calls w @ [Randn ?n, Randint ?n]\<rparr>) = (Inr u, w')"
  proof (cases "mode a = ''sde''")
    case True
    with s4 that[of EulerMaruyamaSampler] show ?thesis by simp
  next
    case False
    note ns = this
    show ?thesis
    proof (cases "mode a = ''ode''")
      case True
      with ns s4 that[of EulerSampler] show ?thesis by simp
    next
      case False
      with ns s4 show ?thesis by (simp add: thn_def throw_def)
    qed
  qed
  note s6 = thn_invoke_Inr[OF thn_invoke_Inr[OF s5]]
  from save_images_saved[OF s6] obtain cs where
    cs: "calls w' = calls w @ [Randn ?n, Randint ?n] @ [c, VaeDecode] @ cs"
      "saved cs = map (\<lambda>x. png_path (sample_folder_dir a e) (snd x)) (zip [0..<nat ?n] ?ix)"
    by auto
  have "map (\<lambda>x. png_path (sample_folder_dir a e) (snd x)) (zip [0..<nat ?n] ?ix)
      = map (png_path (sample_folder_dir a e)) ?ix"
    by (rule map_snd_zip_eq) (simp add: batch_indices_def)
  with cs c have "calls w' = calls w @ ([Randn ?n, Randint ?n, c, VaeDecode] @ cs)
     \<and> saved ([Randn ?n, Randint ?n, c, VaeDecode] @ cs) = map (png_path (sample_folder_dir a e)) ?ix"
    by (cases c) (simp_all add: saved_append)
  then show ?thesis by blast
qed

text \<open>A loop that completes saves, in order, the images of the indices of
  \<open>worker_indices\<close>: one file per index of its rank.\<close>

lemma sampling_loop_saved:
  assumes "sampling_loop a e ks tot w = (Inr u, w')"
  shows "\<exists>cs. calls w' = calls w @ cs
    \<and> saved cs = map (png_path (sample_folder_dir a e))
        (worker_indices (length ks) (pproc_batch_size a) (world_size e) (rank e) tot)"
  using assms
proof (induction ks arbitrary: tot w)
  case Nil
  then show ?case by (simp add: ret_eq)
next
  case (Cons k ks)
  from Cons.prems[unfolded sampling_loop.simps] obtain x w1 where
    1: "sample_batch a e k tot w = (Inr x, w1)"
    and 2: "sampling_loop a e ks (tot + pproc_batch_size a * world_size e) w1 = (Inr u, w')"
    by (cases rule: thn_cases) auto
  from sample_batch_saved[OF 1] obtain cs1 where
    c1: "calls w1 = calls w @ cs1" "saved cs1 = map (png_path (sample_folder_dir a e))
        (batch_indices (pproc_batch_size a) (world_size e) (rank e) tot)" by blast
  from Cons.IH[OF 2] obtain cs2 where
    c2: "calls w' = calls w1 @ cs2" "saved cs2 = map (png_path (sample_folder_dir a e))
        (worker_indices (length ks) (pproc_batch_size a) (world_size e) (rank e)
           (tot + pproc_batch_size a * world_size e))" by blast
  from c1 c2 have "calls w' = calls w @ (cs1 @ cs2)
    \<and> saved (cs1 @ cs2) = map (png_path (sample_folder_dir a e))
        (worker_indices (length (k # ks)) (pproc_batch_size a) (world_size e) (rank e) tot)"
    by (simp add: saved_append)
  then show ?case by blast
qed


lemma sample_all_saved:
  assumes "sample_all a e w = (Inr u, w')"
  shows "\<exists>p. plan (num_fid_samples a) (pproc_batch_size a) (world_size e) = Inr p
    \<and> saved (new_calls w w') = map (png_path (sample_folder_dir a e))
        (worker_indices (nat (iterations p)) (pproc_batch_size a) (world_size e) (rank e) 0)"
proof -
  from assms[unfolded sample_all_def] obtain tot w1 where
    1: "lift (compute_total_samples (num_fid_samples a) (pproc_batch_size a) (world_size e)) w
          = (Inr tot, w1)"
    and 2: "thn (if rank e = 0 then invoke e ReportParameters else ret ()) (\<lambda>_.
       thn (lift (split_samples tot (pproc_batch_size a) (world_size e))) (\<lambda>p.
       sampling_loop a e [0..<nat (iterations p)] 0)) w1 = (Inr u, w')"
    by (cases rule: thn_cases) auto
  from 1 have t: "compute_total_samples (num_fid_samples a) (pproc_batch_size a) (world_size e)
      = Inr tot" and w1: "w1 = w"
    by (auto simp: lift_eq split: sum.splits)
  from 2 obtain x w2 where
    3: "(if rank e = 0 then invoke e ReportParameters else ret ()) w1 = (Inr x, w2)"
    and 4: "thn (lift (split_samples tot (pproc_batch_size a) (world_size e))) (\<lambda>p.
       sampling_loop a e [0..<nat (iterations p)] 0) w2 = (Inr u, w')"
    by (cases rule: thn_cases) auto
  from 3 obtain cs0 where c0: "calls w2 = calls w @ cs0" "saved cs0 = []"
    unfolding w1 by (cases "rank e = 0") (auto simp: invoke_eq ret_eq split: option.splits)
  from 4 obtain p w3 where
    5: "lift (split_samples tot (pproc_batch_size a) (world_size e)) w2 = (Inr p, w3)"
    and 6: "sampling_loop a e [0..<nat (iterations p)] 0 w3 = (Inr u, w')"
    by (cases rule: thn_cases) auto
  from 5 have s: "split_samples tot (pproc_batch_size a) (world_size e) = Inr p" and w3: "w3 = w2"
    by (auto simp: lift_eq split: sum.splits)
  from sampling_loop_saved[OF 6] obtain cs where
    c: "calls w' = calls w3 @ cs" "saved cs = map (png_path (sample_folder_dir a e))
        (worker_indices (nat (iterations p)) (pproc_batch_size a) (world_size e) (rank e) 0)"
    by auto
  have "plan (num_fid_samples a) (pproc_batch_size a) (world_size e) = Inr p"
    by (simp add: plan_def t s)
  moreover have "new_calls w w' = cs0 @ cs" by (simp add: new_calls_def c(1) w3 c0(1))
  ultimately show ?thesis using c(2) c0(2) by (simp add: saved_append)
qed

text \<open>
  C1.  For a plan computed from a requested count \<open>\<ge> 1\<close>, a batch size \<open>n \<ge> 1\<close> and
  \<open>world_size \<ge> 1\<close>, the indices \<open>i * world_size + rank + total\<close> assigned over all ranks,
  iterations and batch positions (\<open>total\<close> advanced by \<open>n * world_size\<close> after each
  iteration) are pairwise distinct and are exactly \<open>0, \<dots>, total_samples - 1\<close>: the map
  from (iteration, batch position, rank) to the index is a bijection onto that range.  These
  are the indices of the program: a loop that completes on a rank saves, in order, exactly
  the image files of the indices of that rank.
\<close>

theorem sample_indices_bijection:
  assumes "1 \<le> requested" "1 \<le> n" "1 \<le> ws" "plan requested n ws = Inr p"
  shows "distinct (all_indices p n ws)
    \<and> set (all_indices p n ws) = {0..<total_samples p}
    \<and> bij_betw (\<lambda>(t, i, r). int i * ws + int r + int t * (n * ws))
         ({..<nat (iterations p)} \<times> {..<nat n} \<times> {..<nat ws}) {0..<total_samples p}
    \<and> (\<forall>a e w u w'. num_fid_samples a = requested \<and> pproc_batch_size a = n
            \<and> world_size e = ws \<and> sample_all a e w = (Inr u, w')
          \<longrightarrow> saved (new_calls w w') = map (png_path (sample_folder_dir a e))
                (worker_indices (nat (iterations p)) n ws (rank e) 0))"
proof -
  have t: "total_samples p = iterations p * (n * ws)"
    using plan_Inr[OF assms(4)] assms(2,3) by simp
  have r: "{0..<int (nat (iterations p) * nat n * nat ws)} = {0..<total_samples p}"
    unfolding t by (rule total_range[OF assms(2,3)])
  have i: "int (nat n) = n" "int (nat ws) = ws" "0 < nat n" "0 < nat ws"
    using assms(2,3) by simp_all
  have 1: "distinct (all_indices p n ws)" by (rule all_indices_distinct[OF assms(2,3)])
  have 2: "set (all_indices p n ws) = {0..<total_samples p}"
    using all_indices_set[OF assms(2,3), of p] r by simp
  have 3: "bij_betw (\<lambda>(t, i, r). int i * ws + int r + int t * (n * ws))
         ({..<nat (iterations p)} \<times> {..<nat n} \<times> {..<nat ws}) {0..<total_samples p}"
    using index_bij[OF i(3,4), of "nat (iterations p)"] by (simp only: i(1,2) r)
  have 4: "saved (new_calls w w') = map (png_path (sample_folder_dir a e))
                (worker_indices (nat (iterations p)) n ws (rank e) 0)"
    if h: "num_fid_samples a = requested \<and> pproc_batch_size a = n
            \<and> world_size e = ws \<and> sample_all a e w = (Inr u, w')" for a e w u w'
  proof -
    from h have run: "sample_all a e w = (Inr u, w')" by simp
    from sample_all_saved[OF run] obtain q where
      q: "plan (num_fid_samples a) (pproc_batch_size a) (world_size e) = Inr q"
        "saved (new_calls w w') = map (png_path (sample_folder_dir a e))
          (worker_indices (nat (iterations q)) (pproc_batch_size a) (world_size e) (rank e) 0)"
      by blast
    from q(1) h assms(4) have "q = p" by simp
    with q(2) h show ?thesis by simp
  qed
  from 1 2 3 4 show ?thesis by blast
qed

theorem sample_indices_bijection_witness:
  "plan 7 2 3 = Inr \<lparr>total_samples = 12, samples_needed_this_gpu = 4, iterations = 2\<rparr>
   \<and> all_indices \<lparr>total_samples = 12, samples_needed_this_gpu = 4, iterations = 2\<rparr> 2 3
       = [0, 3, 6, 9, 1, 4, 7, 10, 2, 5, 8, 11]
   \<and> distinct (all_indices \<lparr>total_samples = 12, samples_needed_this_gpu = 4, iterations = 2\<rparr> 2 3)
   \<and> set (all_indices \<lparr>total_samples = 12, samples_needed_this_gpu = 4, iterations = 2\<rparr> 2 3)
       = {0..<12}
   \<and> fst (sample_all interleave_args rank_one_env empty_world) = Inr ()
   \<and> saved (new_calls empty_world (snd (sample_all interleave_args rank_one_env empty_world)))
       = map (png_path (sample_folder_dir interleave_args rank_one_env)) [1, 4, 7, 10]"
proof -
  let ?p = "\<lparr>total_samples = 12, samples_needed_this_gpu = 4, iterations = 2\<rparr>"
  let ?run = "sample_all interleave_args rank_one_env empty_world"
  have p: "plan 7 2 3 = Inr ?p"
    by code_simp
  have a: "all_indices ?p 2 3 = [0, 3, 6, 9, 1, 4, 7, 10, 2, 5, 8, 11]"
    by code_simp
  have ok: "fst ?run = Inr ()" by code_simp
  then have run: "?run = (Inr (), snd ?run)" by (metis prod.collapse)
  have wi: "worker_indices (nat (iterations ?p)) 2 3 1 0 = [1, 4, 7, 10]" by code_simp
  have v: "num_fid_samples interleave_args = 7" "pproc_batch_size interleave_args = 2"
    "world_size rank_one_env = 3" "rank rank_one_env = 1"
    by (simp_all add: interleave_args_def rank_one_env_def demo_args_def demo_env_def)
  note th = sample_indices_bijection[OF _ _ _ p]
  have th': "distinct (all_indices ?p 2 3) \<and> set (all_indices ?p 2 3) = {0..<12}
    \<and> (\<forall>a e w u w'. num_fid_samples a = 7 \<and> pproc_batch_size a = 2
            \<and> world_size e = 3 \<and> sample_all a e w = (Inr u, w')
          \<longrightarrow> saved (new_calls w w') = map (png_path (sample_folder_dir a e))
                (worker_indices (nat (iterations ?p)) 2 3 (rank e) 0))"
    using th by simp
  then have "saved (new_calls empty_world (snd ?run))
      = map (png_path (sample_folder_dir interleave_args rank_one_env))
          (worker_indices (nat (iterations ?p)) 2 3 (rank rank_one_env) 0)"
    using v run by blast
  then have s: "saved (new_calls empty_world (snd ?run))
      = map (png_path (sample_folder_dir interleave_args rank_one_env)) [1, 4, 7, 10]"
    by (simp only: v wi)
  from th' p a ok s show ?thesis by blast
qed

end
